theory Spec2Isabelle
  imports Complex_Main
begin

section \<open>Values shared by the client's operations\<close>

text \<open>
  The class \<open>AdvancedAPIClient\<close> of \<open>advanced-api-client.js\<close> is embedded function by
  function. JavaScript numbers that hold counts (\<open>maxRetries\<close>, \<open>attempt\<close>, \<open>timeout\<close>,
  an HTTP status) are integers; durations and clock readings in milliseconds are rationals,
  because \<open>1000 / this.rateLimit\<close> need not be whole. Arithmetic is exact: the rounding of
  IEEE doubles is not modelled.
\<close>

type_synonym ms = rat

text \<open>
  An \<open>Error\<close> object as the code reads it: \<open>error.name\<close>, \<open>error.message\<close> and the
  \<open>error.status\<close> that \<open>request\<close> attaches to a non-ok response (absent on every other
  error, where the comparison \<open>undefined >= 400\<close> is false).
\<close>

record js_error =
  name :: string
  message :: string
  status :: "int option"

definition new_Error :: "string \<Rightarrow> js_error" where
  "new_Error msg = \<lparr>name = ''Error'', message = msg, status = None\<rparr>"

text \<open>Template literals print an integer in decimal.\<close>

definition digit_char :: "nat \<Rightarrow> char" where
  "digit_char d = ''0123456789'' ! d"

fun show_nat :: "nat \<Rightarrow> string" where
  "show_nat n = (if n < 10 then [digit_char n] else show_nat (n div 10) @ [digit_char (n mod 10)])"

declare show_nat.simps [simp del]

definition show_int :: "int \<Rightarrow> string" where
  "show_int i = (if i < 0 then CHR ''-'' # show_nat (nat (- i)) else show_nat (nat i))"

section \<open>The client object\<close>

record client =
  baseURL :: string
  timeout :: int
  maxRetries :: int
  retryDelay :: ms
  rateLimit :: "rat option"
  lastRequestTime :: ms
  defaultHeaders :: "string \<rightharpoonup> string"

text \<open>
  The constructor: \<open>options.x || d\<close> takes the default \<open>d\<close> when the option is missing
  and also when it is falsy (\<open>0\<close>, the empty string).
\<close>

record client_options =
  opt_baseURL :: "string option"
  opt_timeout :: "int option"
  opt_maxRetries :: "int option"
  opt_retryDelay :: "ms option"
  opt_rateLimit :: "rat option"
  opt_headers :: "(string \<rightharpoonup> string) option"

definition or_default :: "'a option \<Rightarrow> ('a \<Rightarrow> bool) \<Rightarrow> 'a \<Rightarrow> 'a" where
  "or_default v falsy d = (case v of None \<Rightarrow> d | Some x \<Rightarrow> if falsy x then d else x)"

definition new_client :: "client_options \<Rightarrow> client" where
  "new_client options =
     \<lparr>baseURL = or_default (opt_baseURL options) (\<lambda>s. s = []) [],
      timeout = or_default (opt_timeout options) (\<lambda>n. n = 0) 30000,
      maxRetries = or_default (opt_maxRetries options) (\<lambda>n. n = 0) 3,
      retryDelay = or_default (opt_retryDelay options) (\<lambda>n. n = 0) 1000,
      rateLimit = (case opt_rateLimit options of None \<Rightarrow> None
                   | Some r \<Rightarrow> if r = 0 then None else Some r),
      lastRequestTime = 0,
      defaultHeaders = or_default (opt_headers options) (\<lambda>h. False) Map.empty\<rparr>"

section \<open>retryWithBackoff\<close>

text \<open>
  The operation \<open>fn\<close> is called once per attempt and may answer differently each time:
  \<open>fn k\<close> is the outcome of its call number \<open>k\<close> (counting from 0), \<open>Inr\<close> a value it
  resolves with and \<open>Inl\<close> the \<open>Error\<close> object it rejects with (a call that never settles,
  and a rejection with a value that has no properties to read, are not modelled).
  \<open>attempt\<close> is 1 when the caller omits it. The run returns the outcome of
  \<open>retryWithBackoff\<close> together with what it did, in order: each call of \<open>fn\<close> and each
  \<open>await this.sleep(delay)\<close>. The \<open>console.log\<close> line is left out.
\<close>

datatype retry_event = Invoke nat | Sleep ms

definition is_client_error :: "js_error \<Rightarrow> bool" where
  "is_client_error e = (case status e of None \<Rightarrow> False | Some s \<Rightarrow> 400 \<le> s \<and> s < 500)"

function retryWithBackoff ::
  "client \<Rightarrow> (nat \<Rightarrow> js_error + 'a) \<Rightarrow> nat \<Rightarrow> int \<Rightarrow> (js_error + 'a) \<times> retry_event list" where
  "retryWithBackoff c fn k attempt =
     (case fn k of
        Inr v \<Rightarrow> (Inr v, [Invoke k])
      | Inl e \<Rightarrow>
          if attempt \<ge> maxRetries c then
            (Inl (new_Error (''Failed after '' @ show_int (maxRetries c) @ '' attempts: '' @ message e)),
             [Invoke k])
          else if is_client_error e then (Inl e, [Invoke k])
          else
            (case retryWithBackoff c fn (k + 1) (attempt + 1) of
               (r, evs) \<Rightarrow> (r, Invoke k # Sleep (retryDelay c * power_int 2 (attempt - 1)) # evs)))"
  by pat_completeness auto
termination
  by (relation "measure (\<lambda>(c, fn, k, attempt). nat (maxRetries c - attempt))") auto

declare retryWithBackoff.simps [simp del]

definition invocations :: "retry_event list \<Rightarrow> nat" where
  "invocations evs = length (filter (\<lambda>ev. case ev of Invoke _ \<Rightarrow> True | Sleep _ \<Rightarrow> False) evs)"

definition delays :: "retry_event list \<Rightarrow> ms list" where
  "delays evs = concat (map (\<lambda>ev. case ev of Invoke _ \<Rightarrow> [] | Sleep d \<Rightarrow> [d]) evs)"

section \<open>enforceRateLimit\<close>

text \<open>
  \<open>enforceRateLimit\<close> is an async function with one \<open>await\<close>. JavaScript runs the code
  between two awaits without interruption, so the function is two atomic segments: from
  its entry to \<open>await this.sleep(...)\<close>, and from the timer's firing to its end. The first
  segment reads the clock at \<open>const timeSinceLastRequest = Date.now() - ...\<close> (\<open>now\<close>) and,
  when no wait is needed, again at \<open>this.lastRequestTime = Date.now()\<close> (\<open>now'\<close>). The
  second segment reads the clock once, at that last line.
\<close>

datatype limiter_step = Completed client | Waiting ms

definition enforceRateLimit_enter :: "client \<Rightarrow> ms \<Rightarrow> ms \<Rightarrow> limiter_step" where
  "enforceRateLimit_enter c now now' =
     (case rateLimit c of
        None \<Rightarrow> Completed c
      | Some r \<Rightarrow>
          if r = 0 then Completed c
          else
            let minInterval = 1000 / r;
                timeSinceLastRequest = now - lastRequestTime c
            in if timeSinceLastRequest < minInterval
               then Waiting (minInterval - timeSinceLastRequest)
               else Completed (c\<lparr>lastRequestTime := now'\<rparr>))"

definition enforceRateLimit_resume :: "client \<Rightarrow> ms \<Rightarrow> client" where
  "enforceRateLimit_resume c now' = c\<lparr>lastRequestTime := now'\<rparr>"

text \<open>
  One call that nothing interleaves with: the client it resumes on is the client it
  entered with. The result is the client afterwards and the sleep it asked for, if any.
\<close>

definition enforceRateLimit :: "client \<Rightarrow> ms \<Rightarrow> ms \<Rightarrow> client \<times> ms option" where
  "enforceRateLimit c now now' =
     (case enforceRateLimit_enter c now now' of
        Completed c' \<Rightarrow> (c', None)
      | Waiting d \<Rightarrow> (enforceRateLimit_resume c now', Some d))"

text \<open>
  Several callers on one client. A schedule is the order in which the event loop runs the
  segments: \<open>Call p now now'\<close> runs the first segment for caller \<open>p\<close>, \<open>Wake p t\<close> runs the
  second one at clock reading \<open>t\<close>. A schedule is possible only if the clock never goes
  back and no timer fires before it is due; an impossible one gives \<open>None\<close>. The run
  records the clock reading at which each call completed.
\<close>

datatype limiter_action = Call nat ms ms | Wake nat ms

record limiter_run =
  shared :: client
  clock :: ms
  waiting :: "(nat \<times> ms) list"
  completed :: "(nat \<times> ms) list"

fun limiter_action_step :: "limiter_run \<Rightarrow> limiter_action \<Rightarrow> limiter_run option" where
  "limiter_action_step s (Call p now now') =
     (if now < clock s \<or> now' < now then None
      else case enforceRateLimit_enter (shared s) now now' of
             Completed c' \<Rightarrow>
               Some (s\<lparr>shared := c', clock := now', completed := completed s @ [(p, now')]\<rparr>)
           | Waiting d \<Rightarrow>
               Some (s\<lparr>clock := now, waiting := (p, now + d) # waiting s\<rparr>))"
| "limiter_action_step s (Wake p t) =
     (case map_of (waiting s) p of
        None \<Rightarrow> None
      | Some due \<Rightarrow>
          if t < clock s \<or> t < due then None
          else Some (s\<lparr>shared := enforceRateLimit_resume (shared s) t, clock := t,
                       waiting := filter (\<lambda>w. fst w \<noteq> p) (waiting s),
                       completed := completed s @ [(p, t)]\<rparr>))"

fun limiter_schedule :: "limiter_run \<Rightarrow> limiter_action list \<Rightarrow> limiter_run option" where
  "limiter_schedule s [] = Some s"
| "limiter_schedule s (a # as) =
     (case limiter_action_step s a of None \<Rightarrow> None | Some s' \<Rightarrow> limiter_schedule s' as)"

definition limiter_start :: "client \<Rightarrow> ms \<Rightarrow> limiter_run" where
  "limiter_start c t = \<lparr>shared = c, clock = t, waiting = [], completed = []\<rparr>"

section \<open>request\<close>

text \<open>
  JavaScript values as far as \<open>request\<close> and \<open>batchProcess\<close> look at them. An object literal
  is a finite map from property names; \<open>{...a, ...b}\<close> is \<open>a ++ b\<close>, the later source
  winning. \<open>NaN\<close> is not represented.
\<close>

datatype js_value =
    JUndefined
  | JNull
  | JBoolean bool
  | JNumber rat
  | JString string
  | JObject "string \<rightharpoonup> string"
  | JError js_error
  | JSignal

type_synonym js_object = "string \<rightharpoonup> js_value"

fun truthy :: "js_value \<Rightarrow> bool" where
  "truthy JUndefined = False"
| "truthy JNull = False"
| "truthy (JBoolean b) = b"
| "truthy (JNumber n) = (n \<noteq> 0)"
| "truthy (JString s) = (s \<noteq> [])"
| "truthy (JObject _) = True"
| "truthy (JError _) = True"
| "truthy JSignal = True"

text \<open>
  \<open>...options.headers\<close> inside the \<open>headers\<close> literal: an object contributes its
  properties, a string its characters under their positions, anything else nothing
  (a missing property reads as \<open>undefined\<close>).
\<close>

definition spread :: "js_value option \<Rightarrow> (string \<rightharpoonup> string)" where
  "spread v =
     (case v of
        Some (JObject h) \<Rightarrow> h
      | Some (JString s) \<Rightarrow> map_of (zip (map show_nat [0..<length s]) (map (\<lambda>ch. [ch]) s))
      | _ \<Rightarrow> Map.empty)"

definition request_config :: "client \<Rightarrow> js_object \<Rightarrow> js_object" where
  "request_config c options =
     [''timeout'' \<mapsto> JNumber (of_int (timeout c)),
      ''headers'' \<mapsto> JObject ([''Content-Type'' \<mapsto> ''application/json'']
                               ++ defaultHeaders c ++ spread (options ''headers''))]
     ++ options"

definition fetch_init :: "client \<Rightarrow> js_object \<Rightarrow> js_object" where
  "fetch_init c options = (request_config c options)(''signal'' \<mapsto> JSignal)"

text \<open>
  The transport \<open>fetch\<close> is outside the repository. A call of it either rejects with an
  error (a network failure, or the \<open>AbortError\<close> that \<open>controller.abort()\<close> causes) or
  resolves with a response, of which the code reads \<open>ok\<close>, \<open>status\<close>, \<open>statusText\<close> and the
  outcome of \<open>response.json()\<close>.
\<close>

record 'a response =
  ok :: bool
  resp_status :: int
  statusText :: string
  json :: "js_error + 'a"

datatype 'a fetch_outcome = Resolved "'a response" | Rejected js_error

text \<open>
  The closure handed to \<open>retryWithBackoff\<close>: its \<open>try\<close> block, then its \<open>catch\<close> block. The
  \<open>response\<close> property attached to the HTTP error is not read anywhere and is left out.
\<close>

definition request_try :: "'a fetch_outcome \<Rightarrow> js_error + 'a" where
  "request_try fetched =
     (case fetched of
        Rejected e \<Rightarrow> Inl e
      | Resolved response \<Rightarrow>
          if \<not> ok response then
            Inl \<lparr>name = ''Error'',
                 message = ''HTTP '' @ show_int (resp_status response) @ '': '' @ statusText response,
                 status = Some (resp_status response)\<rparr>
          else json response)"

definition request_catch :: "client \<Rightarrow> js_error \<Rightarrow> js_error" where
  "request_catch c e =
     (if name e = ''AbortError''
      then new_Error (''Request timeout after '' @ show_int (timeout c) @ ''ms'')
      else e)"

definition request_attempt :: "client \<Rightarrow> 'a fetch_outcome \<Rightarrow> js_error + 'a" where
  "request_attempt c fetched =
     (case request_try fetched of Inr v \<Rightarrow> Inr v | Inl e \<Rightarrow> Inl (request_catch c e))"

text \<open>
  A run of \<open>request\<close> returns its outcome, the client afterwards and what it did, in order:
  the one \<open>await this.enforceRateLimit()\<close> (with the sleep it took, if any), each
  \<open>fetch(url, init)\<close> and each backoff sleep. \<open>transport url init k\<close> is what call number
  \<open>k\<close> of \<open>fetch\<close> does; \<open>now\<close> and \<open>now'\<close> are the clock readings of the rate limiter. An
  omitted \<open>options\<close> argument is \<open>{}\<close>.
\<close>

datatype request_event = Acquire "ms option" | Fetch string js_object | Backoff ms

record 'a request_run =
  outcome :: "js_error + 'a"
  client_after :: client
  trace :: "request_event list"

definition request_event_of :: "string \<Rightarrow> js_object \<Rightarrow> retry_event \<Rightarrow> request_event" where
  "request_event_of url init ev = (case ev of Invoke _ \<Rightarrow> Fetch url init | Sleep d \<Rightarrow> Backoff d)"

definition request ::
  "client \<Rightarrow> ms \<Rightarrow> ms \<Rightarrow> (string \<Rightarrow> js_object \<Rightarrow> nat \<Rightarrow> 'a fetch_outcome) \<Rightarrow>
   string \<Rightarrow> js_object option \<Rightarrow> 'a request_run" where
  "request c now now' transport endpoint options_arg =
     (let options = (case options_arg of None \<Rightarrow> Map.empty | Some opts \<Rightarrow> opts);
          limited = enforceRateLimit c now now';
          c' = fst limited;
          url = baseURL c' @ endpoint;
          init = fetch_init c' options;
          retried = retryWithBackoff c' (\<lambda>k. request_attempt c' (transport url init k)) 0 1
      in \<lparr>outcome = fst retried, client_after = c',
          trace = Acquire (snd limited) # map (request_event_of url init) (snd retried)\<rparr>)"

text \<open>
  The convenience methods. An omitted \<open>headers\<close> argument is \<open>{}\<close>; \<open>data\<close> stands for the
  text \<open>JSON.stringify(data)\<close>.
\<close>

definition headers_or_empty :: "(string \<rightharpoonup> string) option \<Rightarrow> js_value" where
  "headers_or_empty headers = JObject (case headers of None \<Rightarrow> Map.empty | Some h \<Rightarrow> h)"

definition get ::
  "client \<Rightarrow> ms \<Rightarrow> ms \<Rightarrow> (string \<Rightarrow> js_object \<Rightarrow> nat \<Rightarrow> 'a fetch_outcome) \<Rightarrow>
   string \<Rightarrow> (string \<rightharpoonup> string) option \<Rightarrow> 'a request_run" where
  "get c now now' transport endpoint headers =
     request c now now' transport endpoint
       (Some [''method'' \<mapsto> JString ''GET'', ''headers'' \<mapsto> headers_or_empty headers])"

definition post ::
  "client \<Rightarrow> ms \<Rightarrow> ms \<Rightarrow> (string \<Rightarrow> js_object \<Rightarrow> nat \<Rightarrow> 'a fetch_outcome) \<Rightarrow>
   string \<Rightarrow> string \<Rightarrow> (string \<rightharpoonup> string) option \<Rightarrow> 'a request_run" where
  "post c now now' transport endpoint data headers =
     request c now now' transport endpoint
       (Some [''method'' \<mapsto> JString ''POST'', ''body'' \<mapsto> JString data,
              ''headers'' \<mapsto> headers_or_empty headers])"

definition put ::
  "client \<Rightarrow> ms \<Rightarrow> ms \<Rightarrow> (string \<Rightarrow> js_object \<Rightarrow> nat \<Rightarrow> 'a fetch_outcome) \<Rightarrow>
   string \<Rightarrow> string \<Rightarrow> (string \<rightharpoonup> string) option \<Rightarrow> 'a request_run" where
  "put c now now' transport endpoint data headers =
     request c now now' transport endpoint
       (Some [''method'' \<mapsto> JString ''PUT'', ''body'' \<mapsto> JString data,
              ''headers'' \<mapsto> headers_or_empty headers])"

definition delete ::
  "client \<Rightarrow> ms \<Rightarrow> ms \<Rightarrow> (string \<Rightarrow> js_object \<Rightarrow> nat \<Rightarrow> 'a fetch_outcome) \<Rightarrow>
   string \<Rightarrow> (string \<rightharpoonup> string) option \<Rightarrow> 'a request_run" where
  "delete c now now' transport endpoint headers =
     request c now now' transport endpoint
       (Some [''method'' \<mapsto> JString ''DELETE'', ''headers'' \<mapsto> headers_or_empty headers])"

text \<open>What a run sent: the \<open>headers\<close> property of the init object of each \<open>fetch\<close>.\<close>

definition sent_headers :: "request_event list \<Rightarrow> js_value option list" where
  "sent_headers evs =
     concat (map (\<lambda>ev. case ev of Fetch _ init \<Rightarrow> [init ''headers''] | _ \<Rightarrow> []) evs)"

definition acquisitions :: "request_event list \<Rightarrow> nat" where
  "acquisitions evs = length (filter (\<lambda>ev. case ev of Acquire _ \<Rightarrow> True | _ \<Rightarrow> False) evs)"

definition fetches :: "request_event list \<Rightarrow> nat" where
  "fetches evs = length (filter (\<lambda>ev. case ev of Fetch _ _ \<Rightarrow> True | _ \<Rightarrow> False) evs)"

definition backoffs :: "request_event list \<Rightarrow> ms list" where
  "backoffs evs = concat (map (\<lambda>ev. case ev of Backoff d \<Rightarrow> [d] | _ \<Rightarrow> []) evs)"

section \<open>batchProcess\<close>

text \<open>
  \<open>results\<close> is a JavaScript array that is only written by index, so it can have holes. A
  slot is a hole, \<open>null\<close> or a value; writing past the end extends the array with holes,
  and reading a hole or past the end gives \<open>undefined\<close>, here \<open>Hole\<close>.
\<close>

datatype 'b slot = Hole | Null | Value 'b

definition array_set :: "'b slot list \<Rightarrow> nat \<Rightarrow> 'b slot \<Rightarrow> 'b slot list" where
  "array_set xs i v =
     (if i < length xs then xs[i := v] else xs @ replicate (i - length xs) Hole @ [v])"

definition array_get :: "'b slot list \<Rightarrow> nat \<Rightarrow> 'b slot" where
  "array_get xs i = (if i < length xs then xs ! i else Hole)"

definition slice :: "'a list \<Rightarrow> nat \<Rightarrow> nat \<Rightarrow> 'a list" where
  "slice xs b e = take (e - b) (drop b xs)"

text \<open>
  \<open>processor item\<close> is the outcome of the promise \<open>processor(item)\<close>: \<open>Inr\<close> the value it
  resolves with, \<open>Inl\<close> the value it rejects with (or throws), which can be any JavaScript
  value. A promise that never settles is not modelled. The async arrow function of \<open>batch.map\<close> returns a record
  \<open>{index, result, error}\<close> from its \<open>try\<close> block and from its \<open>catch\<close> block, so its own
  promise always resolves.
\<close>

record 'b settled =
  index :: nat
  result :: "'b slot"
  error :: js_value

definition settled_record :: "('a \<Rightarrow> js_value + 'b) \<Rightarrow> nat \<Rightarrow> 'a \<Rightarrow> 'b settled" where
  "settled_record processor idx item =
     (case processor item of
        Inr r \<Rightarrow> \<lparr>index = idx, result = Value r, error = JNull\<rparr>
      | Inl e \<Rightarrow> \<lparr>index = idx, result = Null, error = e\<rparr>)"

definition settle :: "('a \<Rightarrow> js_value + 'b) \<Rightarrow> nat \<Rightarrow> 'a \<Rightarrow> js_value + 'b settled" where
  "settle processor idx item = Inr (settled_record processor idx item)"

text \<open>\<open>Promise.all\<close> rejects as soon as one of its promises does.\<close>

fun promise_all :: "('e + 'x) list \<Rightarrow> 'e + 'x list" where
  "promise_all [] = Inr []"
| "promise_all (p # ps) =
     (case p of
        Inl e \<Rightarrow> Inl e
      | Inr x \<Rightarrow> (case promise_all ps of Inl e \<Rightarrow> Inl e | Inr xs \<Rightarrow> Inr (x # xs)))"

text \<open>
  The state of the loop is the two arrays the function returns, and two logs that the
  JavaScript does not keep: the windows taken so far, and the calls of \<open>processor\<close> started
  and settled, by index. All calls of a window are started by \<open>batch.map\<close> before
  \<open>await Promise.all\<close> gives control away, and the loop goes on only when all of them have
  settled; the log lists the settlements of a window by index.
\<close>

datatype batch_event = Start nat | Settled nat

record 'b batch_result =
  results :: "'b slot list"
  errors :: "(nat \<times> js_value) list"

record ('a, 'b) batch_state = "'b batch_result" +
  windows :: "'a list list"
  events :: "batch_event list"

definition record_settled :: "('a, 'b) batch_state \<Rightarrow> 'b settled \<Rightarrow> ('a, 'b) batch_state" where
  "record_settled st s =
     (if truthy (error s) then st\<lparr>errors := errors st @ [(index s, error s)]\<rparr>
      else st\<lparr>results := array_set (results st) (index s) (result s)\<rparr>)"

definition batch_window ::
  "('a \<Rightarrow> js_value + 'b) \<Rightarrow> nat \<Rightarrow> 'a list \<Rightarrow> ('a, 'b) batch_state \<Rightarrow>
   js_value + ('a, 'b) batch_state" where
  "batch_window processor i batch st =
     (let batchPromises = map (\<lambda>(index, item). settle processor (i + index) item) (enumerate 0 batch);
          started = st\<lparr>windows := windows st @ [batch],
                       events := events st @ map (\<lambda>(index, item). Start (i + index)) (enumerate 0 batch)\<rparr>
      in case promise_all batchPromises of
           Inl e \<Rightarrow> Inl e
         | Inr batchResults \<Rightarrow>
             Inr (fold (\<lambda>s st'. record_settled st' s) batchResults
                    (started\<lparr>events := events started @ map (\<lambda>s. Settled (index s)) batchResults\<rparr>)))"

text \<open>
  The \<open>for\<close> loop, for a concurrency that is a whole number and not negative (a negative
  or fractional one is not modelled). With \<open>concurrency = 0\<close> the counter never advances and
  the loop does not end, which is the value \<open>None\<close>; a rejection of \<open>await Promise.all\<close> would leave the
  function as \<open>Inl\<close>.
\<close>

partial_function (option) batchProcess_loop ::
  "'a list \<Rightarrow> ('a \<Rightarrow> js_value + 'b) \<Rightarrow> nat \<Rightarrow> nat \<Rightarrow> ('a, 'b) batch_state \<Rightarrow>
   (js_value + ('a, 'b) batch_state) option" where
  "batchProcess_loop items processor concurrency i st =
     (if i < length items then
        (case batch_window processor i (slice items i (i + concurrency)) st of
           Inl e \<Rightarrow> Some (Inl e)
         | Inr st' \<Rightarrow> batchProcess_loop items processor concurrency (i + concurrency) st')
      else Some (Inr st))"

declare batchProcess_loop.simps [code]

definition batch_init :: "('a, 'b) batch_state" where
  "batch_init = \<lparr>results = [], errors = [], windows = [], events = []\<rparr>"

definition batchProcess_run ::
  "'a list \<Rightarrow> ('a \<Rightarrow> js_value + 'b) \<Rightarrow> nat option \<Rightarrow> (js_value + ('a, 'b) batch_state) option" where
  "batchProcess_run items processor concurrency_arg =
     batchProcess_loop items processor (case concurrency_arg of None \<Rightarrow> 5 | Some n \<Rightarrow> n) 0 batch_init"

text \<open>\<open>batchProcess\<close> returns \<open>{ results, errors }\<close>, the run without its logs.\<close>

definition batchProcess ::
  "'a list \<Rightarrow> ('a \<Rightarrow> js_value + 'b) \<Rightarrow> nat option \<Rightarrow> (js_value + 'b batch_result) option" where
  "batchProcess items processor concurrency_arg =
     map_option (map_sum id (\<lambda>st. \<lparr>results = results st, errors = errors st\<rparr>))
       (batchProcess_run items processor concurrency_arg)"

text \<open>
  A processor for concrete runs: it rejects the item \<open>bad\<close> with the value \<open>e\<close> and
  resolves every other item \<open>x\<close> with \<open>f x\<close>.
\<close>

definition rejecting :: "'a \<Rightarrow> js_value \<Rightarrow> ('a \<Rightarrow> 'b) \<Rightarrow> 'a \<Rightarrow> js_value + 'b" where
  "rejecting bad e f x = (if x = bad then Inl e else Inr (f x))"

text \<open>The number of calls of \<open>processor\<close> in flight after a sequence of events.\<close>

definition in_flight :: "batch_event list \<Rightarrow> int" where
  "in_flight evs =
     int (length (filter (\<lambda>ev. case ev of Start _ \<Rightarrow> True | Settled _ \<Rightarrow> False) evs))
     - int (length (filter (\<lambda>ev. case ev of Start _ \<Rightarrow> False | Settled _ \<Rightarrow> True) evs))"

text \<open>The values the loop counter \<open>i\<close> takes: \<open>0, c, 2c, ...\<close> below \<open>n\<close>.\<close>

function window_starts :: "nat \<Rightarrow> nat \<Rightarrow> nat \<Rightarrow> nat list" where
  "window_starts n c i = (if i < n \<and> 0 < c then i # window_starts n c (i + c) else [])"
  by pat_completeness auto
termination
  by (relation "measure (\<lambda>(n, c, i). n - i)") auto

declare window_starts.simps [simp del]

section \<open>Properties of retryWithBackoff\<close>

lemma retry_success:
  "fn k = Inr v \<Longrightarrow> retryWithBackoff c fn k attempt = (Inr v, [Invoke k])"
  by (simp add: retryWithBackoff.simps)

lemma retry_exhausted:
  "fn k = Inl e \<Longrightarrow> maxRetries c \<le> attempt \<Longrightarrow>
   retryWithBackoff c fn k attempt =
     (Inl (new_Error (''Failed after '' @ show_int (maxRetries c) @ '' attempts: '' @ message e)),
      [Invoke k])"
  by (simp add: retryWithBackoff.simps)

lemma retry_client_error:
  "fn k = Inl e \<Longrightarrow> attempt < maxRetries c \<Longrightarrow> is_client_error e \<Longrightarrow>
   retryWithBackoff c fn k attempt = (Inl e, [Invoke k])"
  by (simp add: retryWithBackoff.simps)

lemma retry_again:
  "fn k = Inl e \<Longrightarrow> attempt < maxRetries c \<Longrightarrow> \<not> is_client_error e \<Longrightarrow>
   retryWithBackoff c fn k attempt =
     (fst (retryWithBackoff c fn (k + 1) (attempt + 1)),
      Invoke k # Sleep (retryDelay c * power_int 2 (attempt - 1))
        # snd (retryWithBackoff c fn (k + 1) (attempt + 1)))"
  by (subst retryWithBackoff.simps) (simp add: case_prod_beta)

lemma retry_transient_run:
  assumes tr: "\<forall>j. \<exists>e. fn j = Inl e \<and> \<not> is_client_error e"
  shows "maxRetries c = attempt + int n \<Longrightarrow>
    retryWithBackoff c fn k attempt =
      (Inl (new_Error (''Failed after '' @ show_int (maxRetries c) @ '' attempts: ''
              @ message (projl (fn (k + n))))),
       concat (map (\<lambda>i. [Invoke (k + i), Sleep (retryDelay c * power_int 2 (attempt - 1 + int i))])
                 [0..<n]) @ [Invoke (k + n)])"
proof (induction n arbitrary: k attempt)
  case 0
  from tr obtain e where e: "fn k = Inl e" by blast
  with 0 show ?case by (simp add: retry_exhausted)
next
  case (Suc n)
  from tr obtain e where e: "fn k = Inl e" "\<not> is_client_error e" by blast
  have lt: "attempt < maxRetries c" using Suc.prems by simp
  have step: "maxRetries c = (attempt + 1) + int n" using Suc.prems by simp
  have shift: "[0..<Suc n] = 0 # map Suc [0..<n]"
    by (simp add: upt_conv_Cons map_Suc_upt del: upt_Suc)
  have again: "retryWithBackoff c fn k attempt =
     (fst (retryWithBackoff c fn (k + 1) (attempt + 1)),
      Invoke k # Sleep (retryDelay c * power_int 2 (attempt - 1))
        # snd (retryWithBackoff c fn (k + 1) (attempt + 1)))"
    using e(1) lt e(2) by (rule retry_again [where fn = fn and k = k])
  show ?case
    unfolding again Suc.IH [OF step] shift
    by (simp add: comp_def add.commute add.left_commute add.assoc)
qed

lemma invocations_rounds:
  "invocations (concat (map (\<lambda>a. [Invoke (f a), Sleep (g a)]) as) @ [Invoke j]) = Suc (length as)"
  by (induction as) (simp_all add: invocations_def)

lemma delays_rounds:
  "delays (concat (map (\<lambda>a. [Invoke (f a), Sleep (g a)]) as) @ [Invoke j]) = map g as"
  by (induction as) (simp_all add: delays_def)

text \<open>
  C1. An operation that fails on every attempt with an error that is not a 4xx error,
  under \<open>maxRetries = m \<ge> 1\<close> and \<open>retryDelay = b\<close>: the run is call, sleep \<open>b\<close>, call,
  sleep \<open>2b\<close>, ..., call, so the operation is called exactly \<open>m\<close> times, the sleep after
  failed attempt \<open>a\<close> is \<open>b * 2^(a-1)\<close> for \<open>a = 1..m-1\<close>, nothing follows the last call, and
  the error is \<open>Failed after m attempts:\<close> followed by the message of the last failure.
  It holds for every \<open>b\<close>, positive or not.
\<close>

theorem retryWithBackoff_transient_exhausts:
  assumes "\<forall>k. \<exists>e. fn k = Inl e \<and> \<not> is_client_error e"
    and "maxRetries c = m" and "1 \<le> m" and "retryDelay c = b"
  shows "retryWithBackoff c fn 0 1 =
           (Inl (new_Error (''Failed after '' @ show_int m @ '' attempts: ''
                   @ message (projl (fn (nat m - 1))))),
            concat (map (\<lambda>a. [Invoke (a - 1), Sleep (b * 2 ^ (a - 1))]) [1..<nat m])
              @ [Invoke (nat m - 1)])
         \<and> invocations (snd (retryWithBackoff c fn 0 1)) = nat m
         \<and> delays (snd (retryWithBackoff c fn 0 1)) = map (\<lambda>a. b * 2 ^ (a - 1)) [1..<nat m]
         \<and> last (snd (retryWithBackoff c fn 0 1)) = Invoke (nat m - 1)"
proof -
  define n where "n = nat m - 1"
  have m: "maxRetries c = 1 + int n" using assms(2,3) by (simp add: n_def)
  have upt: "[1..<nat m] = map Suc [0..<n]"
    using assms(3) by (simp add: n_def map_Suc_upt)
  have run: "retryWithBackoff c fn 0 1 =
           (Inl (new_Error (''Failed after '' @ show_int m @ '' attempts: ''
                   @ message (projl (fn (nat m - 1))))),
            concat (map (\<lambda>a. [Invoke (a - 1), Sleep (b * 2 ^ (a - 1))]) [1..<nat m])
              @ [Invoke (nat m - 1)])"
    unfolding retry_transient_run [OF assms(1) m] upt
    using assms(2,4) by (simp add: n_def comp_def)
  show ?thesis
    unfolding run using assms(3) by (simp add: invocations_rounds delays_rounds)
qed

theorem retryWithBackoff_transient_exhausts_witness:
  "retryWithBackoff
     (new_client \<lparr>opt_baseURL = None, opt_timeout = None, opt_maxRetries = Some 3,
               opt_retryDelay = Some 100, opt_rateLimit = None, opt_headers = None\<rparr>)
     (\<lambda>k. Inl \<lparr>name = ''Error'', message = ''HTTP 503: Service Unavailable'', status = Some 503\<rparr>
            :: js_error + unit) 0 1 =
     (Inl (new_Error ''Failed after 3 attempts: HTTP 503: Service Unavailable''),
      [Invoke 0, Sleep 100, Invoke 1, Sleep 200, Invoke 2])"
  using retryWithBackoff_transient_exhausts
    [of "\<lambda>k. Inl \<lparr>name = ''Error'', message = ''HTTP 503: Service Unavailable'', status = Some 503\<rparr>"
        "new_client \<lparr>opt_baseURL = None, opt_timeout = None, opt_maxRetries = Some 3,
               opt_retryDelay = Some 100, opt_rateLimit = None, opt_headers = None\<rparr>" 3 100,
     THEN conjunct1]
  by (simp add: new_client_def or_default_def is_client_error_def show_int_def show_nat.simps
      digit_char_def new_Error_def upt_conv_Cons)

text \<open>
  C2. An operation that fails with an error whose status is in [400, 500): whatever the
  attempt number and the retry budget, the operation is called once, no sleep follows,
  and the run fails: with the error itself while attempts remain, with the wrapped error
  on the last attempt.
\<close>

theorem retryWithBackoff_client_error_once:
  assumes "fn k = Inl e" and "status e = Some s" and "400 \<le> s" and "s < 500"
  shows "snd (retryWithBackoff c fn k attempt) = [Invoke k]
         \<and> invocations (snd (retryWithBackoff c fn k attempt)) = 1
         \<and> delays (snd (retryWithBackoff c fn k attempt)) = []
         \<and> fst (retryWithBackoff c fn k attempt) =
             Inl (if attempt < maxRetries c then e
                  else new_Error (''Failed after '' @ show_int (maxRetries c) @ '' attempts: ''
                         @ message e))"
proof -
  have ce: "is_client_error e"
    using assms(2-4) by (simp add: is_client_error_def)
  show ?thesis
  proof (cases "attempt < maxRetries c")
    case True
    then show ?thesis
      using retry_client_error [where fn = fn and k = k, OF assms(1) True ce] by (simp add: invocations_def delays_def)
  next
    case False
    then have "maxRetries c \<le> attempt" by simp
    from retry_exhausted [where fn = fn and k = k, OF assms(1) this] False show ?thesis
      by (simp add: invocations_def delays_def)
  qed
qed

theorem retryWithBackoff_client_error_once_witness:
  "retryWithBackoff
     (new_client \<lparr>opt_baseURL = None, opt_timeout = None, opt_maxRetries = Some 5,
               opt_retryDelay = None, opt_rateLimit = None, opt_headers = None\<rparr>)
     (\<lambda>k. Inl \<lparr>name = ''Error'', message = ''HTTP 404: Not Found'', status = Some 404\<rparr>
            :: js_error + unit) 0 1 =
     (Inl \<lparr>name = ''Error'', message = ''HTTP 404: Not Found'', status = Some 404\<rparr>, [Invoke 0])"
  using retryWithBackoff_client_error_once
    [of "\<lambda>k. Inl \<lparr>name = ''Error'', message = ''HTTP 404: Not Found'', status = Some 404\<rparr>
            :: js_error + unit" 0
        "\<lparr>name = ''Error'', message = ''HTTP 404: Not Found'', status = Some 404\<rparr>" 404
        "new_client \<lparr>opt_baseURL = None, opt_timeout = None, opt_maxRetries = Some 5,
               opt_retryDelay = None, opt_rateLimit = None, opt_headers = None\<rparr>" 1]
  by (simp add: new_client_def or_default_def prod_eq_iff)

section \<open>Properties of enforceRateLimit\<close>

lemma enforceRateLimit_wait:
  assumes "rateLimit c = Some r" and "r \<noteq> 0" and "now - lastRequestTime c < 1000 / r"
  shows "enforceRateLimit c now now' =
           (c\<lparr>lastRequestTime := now'\<rparr>, Some (1000 / r - (now - lastRequestTime c)))"
  using assms
  by (simp add: enforceRateLimit_def enforceRateLimit_enter_def enforceRateLimit_resume_def)

lemma enforceRateLimit_no_wait:
  assumes "rateLimit c = Some r" and "r \<noteq> 0" and "\<not> now - lastRequestTime c < 1000 / r"
  shows "enforceRateLimit c now now' = (c\<lparr>lastRequestTime := now'\<rparr>, None)"
  using assms
  by (simp add: enforceRateLimit_def enforceRateLimit_enter_def)

text \<open>
  One call that runs alone, on a clock that does not go back and with a timer that does
  not fire early: it asks for exactly \<open>minInterval - elapsed\<close> when that is positive and
  for no sleep otherwise, and it completes at least \<open>1000 / r\<close> after the previous
  completion. This is the spacing for calls that do not overlap.
\<close>

lemma enforceRateLimit_alone_spacing:
  assumes "rateLimit c = Some r" and "0 < r" and "now \<le> now'"
    and "\<forall>d. snd (enforceRateLimit c now now') = Some d \<longrightarrow> now + d \<le> now'"
  shows "1000 / r \<le> lastRequestTime (fst (enforceRateLimit c now now')) - lastRequestTime c"
proof (cases "now - lastRequestTime c < 1000 / r")
  case True
  from assms(2) have r: "r \<noteq> 0" by simp
  note run = enforceRateLimit_wait [OF assms(1) r True, of now']
  from assms(4) run have "now + (1000 / r - (now - lastRequestTime c)) \<le> now'" by simp
  then show ?thesis using run by simp
next
  case False
  from assms(2) have r: "r \<noteq> 0" by simp
  note run = enforceRateLimit_no_wait [OF assms(1) r False, of now']
  from False assms(3) show ?thesis using run by simp
qed

text \<open>
  C8. With a rate limit configured, a completed call leaves \<open>lastRequestTime\<close> at the clock
  reading of its last line, whether it slept or not: a call that finds more than
  \<open>minInterval\<close> elapsed asks for no sleep and still moves the baseline to now. The
  segment after the sleep does the same on whatever client it resumes on.
\<close>

theorem enforceRateLimit_sets_lastRequestTime:
  assumes "rateLimit c = Some r" and "r \<noteq> 0"
  shows "lastRequestTime (fst (enforceRateLimit c now now')) = now'
         \<and> enforceRateLimit c now now' =
             (c\<lparr>lastRequestTime := now'\<rparr>,
              if now - lastRequestTime c < 1000 / r
              then Some (1000 / r - (now - lastRequestTime c)) else None)
         \<and> lastRequestTime (enforceRateLimit_resume c'' t) = t"
proof (cases "now - lastRequestTime c < 1000 / r")
  case True
  then show ?thesis
    using enforceRateLimit_wait [OF assms True, of now']
    by (simp add: enforceRateLimit_resume_def)
next
  case False
  then show ?thesis
    using enforceRateLimit_no_wait [OF assms False, of now']
    by (simp add: enforceRateLimit_resume_def)
qed

theorem enforceRateLimit_sets_lastRequestTime_witness:
  "enforceRateLimit
     (new_client \<lparr>opt_baseURL = None, opt_timeout = None, opt_maxRetries = None,
               opt_retryDelay = None, opt_rateLimit = Some 2, opt_headers = None\<rparr>
        \<lparr>lastRequestTime := 1000\<rparr>) 5000 5001
   = (new_client \<lparr>opt_baseURL = None, opt_timeout = None, opt_maxRetries = None,
               opt_retryDelay = None, opt_rateLimit = Some 2, opt_headers = None\<rparr>
        \<lparr>lastRequestTime := 5001\<rparr>, None)"
  using enforceRateLimit_sets_lastRequestTime
    [of "new_client \<lparr>opt_baseURL = None, opt_timeout = None, opt_maxRetries = None,
               opt_retryDelay = None, opt_rateLimit = Some 2, opt_headers = None\<rparr>
        \<lparr>lastRequestTime := 1000\<rparr>" 2 5000 5001]
  by (simp add: new_client_def or_default_def)

text \<open>
  C5. The claim is that two consecutive completed calls on one client are at least
  \<open>1000 / r\<close> ms apart. Calls that do not overlap are (the lemma above); calls that
  overlap are not. A client limited to 2 requests per second (\<open>minInterval = 500\<close>)
  completes a call at clock reading 1000. Two callers then enter at 1100, both before
  either has written \<open>lastRequestTime\<close> (as the calls of one \<open>batchProcess\<close> window do):
  both read the same timestamp, both sleep 400, and both complete at 1500, 0 ms apart.
\<close>

theorem enforceRateLimit_overlapping_calls_complete_together:
  "map_option completed
     (limiter_schedule
        (limiter_start
           (new_client \<lparr>opt_baseURL = None, opt_timeout = None, opt_maxRetries = None,
               opt_retryDelay = None, opt_rateLimit = Some 2, opt_headers = None\<rparr>) 1000)
        [Call 0 1000 1000, Call 1 1100 1100, Call 2 1100 1100, Wake 1 1500, Wake 2 1500])
   = Some [(0, 1000), (1, 1500), (2, 1500)]
   \<and> (1500 :: ms) - 1500 < 1000 / 2"
  by (simp add: limiter_start_def new_client_def or_default_def enforceRateLimit_enter_def
      enforceRateLimit_resume_def)

section \<open>Properties of request\<close>

text \<open>
  C6. When the \<open>try\<close> block of the closure fails with an \<open>AbortError\<close> (the rejection of
  \<open>fetch\<close> that \<open>controller.abort()\<close> causes when the timer fires), the closure fails
  with a fresh \<open>Error\<close> \<open>Request timeout after <timeout>ms\<close>. That error has no status, so
  it is not a client error, and \<open>retryWithBackoff\<close> sleeps the backoff delay and tries
  again whenever attempts remain.
\<close>

theorem request_timeout_is_retried:
  assumes "request_try fetched = Inl e" and "name e = ''AbortError''"
    and "fn k = request_attempt c fetched" and "attempt < maxRetries c"
  shows "request_attempt c fetched =
           Inl (new_Error (''Request timeout after '' @ show_int (timeout c) @ ''ms''))
         \<and> status (new_Error (''Request timeout after '' @ show_int (timeout c) @ ''ms'')) = None
         \<and> \<not> is_client_error (new_Error (''Request timeout after '' @ show_int (timeout c) @ ''ms''))
         \<and> retryWithBackoff c fn k attempt =
             (fst (retryWithBackoff c fn (k + 1) (attempt + 1)),
              Invoke k # Sleep (retryDelay c * power_int 2 (attempt - 1))
                # snd (retryWithBackoff c fn (k + 1) (attempt + 1)))"
proof -
  let ?err = "new_Error (''Request timeout after '' @ show_int (timeout c) @ ''ms'')"
  have att: "request_attempt c fetched = Inl ?err"
    using assms(1,2) by (simp add: request_attempt_def request_catch_def)
  have st: "status ?err = None" by (simp add: new_Error_def)
  then have nce: "\<not> is_client_error ?err" by (simp add: is_client_error_def)
  have fk: "fn k = Inl ?err" using assms(3) att by simp
  have "retryWithBackoff c fn k attempt =
             (fst (retryWithBackoff c fn (k + 1) (attempt + 1)),
              Invoke k # Sleep (retryDelay c * power_int 2 (attempt - 1))
                # snd (retryWithBackoff c fn (k + 1) (attempt + 1)))"
    using fk assms(4) nce by (rule retry_again [where fn = fn and k = k])
  with att st nce show ?thesis by simp
qed

theorem request_timeout_is_retried_witness:
  "request_attempt
     (new_client \<lparr>opt_baseURL = None, opt_timeout = None, opt_maxRetries = None,
               opt_retryDelay = None, opt_rateLimit = None, opt_headers = None\<rparr>)
     (Rejected \<lparr>name = ''AbortError'', message = ''This operation was aborted'', status = None\<rparr>
        :: unit fetch_outcome)
     = Inl (new_Error ''Request timeout after 30000ms'')
   \<and> snd (retryWithBackoff
     (new_client \<lparr>opt_baseURL = None, opt_timeout = None, opt_maxRetries = None,
               opt_retryDelay = None, opt_rateLimit = None, opt_headers = None\<rparr>)
     (\<lambda>k. request_attempt
        (new_client \<lparr>opt_baseURL = None, opt_timeout = None, opt_maxRetries = None,
               opt_retryDelay = None, opt_rateLimit = None, opt_headers = None\<rparr>)
        (Rejected \<lparr>name = ''AbortError'', message = ''This operation was aborted'', status = None\<rparr>
          :: unit fetch_outcome)) 0 1)
     = Invoke 0 # Sleep 1000 # snd (retryWithBackoff
     (new_client \<lparr>opt_baseURL = None, opt_timeout = None, opt_maxRetries = None,
               opt_retryDelay = None, opt_rateLimit = None, opt_headers = None\<rparr>)
     (\<lambda>k. request_attempt
        (new_client \<lparr>opt_baseURL = None, opt_timeout = None, opt_maxRetries = None,
               opt_retryDelay = None, opt_rateLimit = None, opt_headers = None\<rparr>)
        (Rejected \<lparr>name = ''AbortError'', message = ''This operation was aborted'', status = None\<rparr>
          :: unit fetch_outcome)) 1 2)"
  using request_timeout_is_retried
    [of "Rejected \<lparr>name = ''AbortError'', message = ''This operation was aborted'', status = None\<rparr>
          :: unit fetch_outcome"
        "\<lparr>name = ''AbortError'', message = ''This operation was aborted'', status = None\<rparr>"
        "\<lambda>k. request_attempt
        (new_client \<lparr>opt_baseURL = None, opt_timeout = None, opt_maxRetries = None,
               opt_retryDelay = None, opt_rateLimit = None, opt_headers = None\<rparr>)
        (Rejected \<lparr>name = ''AbortError'', message = ''This operation was aborted'', status = None\<rparr>
          :: unit fetch_outcome)" 0
        "new_client \<lparr>opt_baseURL = None, opt_timeout = None, opt_maxRetries = None,
               opt_retryDelay = None, opt_rateLimit = None, opt_headers = None\<rparr>" 1]
  by (auto simp add: new_client_def or_default_def request_try_def show_int_def show_nat.simps
      digit_char_def)

lemma fetch_init_headers_given:
  "options ''headers'' = Some h \<Longrightarrow> fetch_init c options ''headers'' = Some h"
  by (simp add: fetch_init_def request_config_def map_add_def)

lemma fetch_init_headers_missing:
  "options ''headers'' = None \<Longrightarrow>
   fetch_init c options ''headers'' =
     Some (JObject ([''Content-Type'' \<mapsto> ''application/json''] ++ defaultHeaders c))"
  by (simp add: fetch_init_def request_config_def map_add_def spread_def)

lemma sent_headers_retry:
  "sent_headers (map (request_event_of url init) evs) = replicate (invocations evs) (init ''headers'')"
  by (induction evs)
     (simp_all add: sent_headers_def invocations_def request_event_of_def split: retry_event.splits)

lemma fetches_retry:
  "fetches (map (request_event_of url init) evs) = invocations evs"
  by (induction evs)
     (simp_all add: fetches_def invocations_def request_event_of_def split: retry_event.splits)

lemma backoffs_retry:
  "backoffs (map (request_event_of url init) evs) = delays evs"
  by (induction evs)
     (simp_all add: backoffs_def delays_def request_event_of_def split: retry_event.splits)

lemma acquisitions_retry:
  "acquisitions (map (request_event_of url init) evs) = 0"
  by (induction evs)
     (simp_all add: acquisitions_def request_event_of_def split: retry_event.splits)

lemma request_trace:
  "trace (request c now now' transport endpoint options_arg) =
     Acquire (snd (enforceRateLimit c now now'))
     # map (request_event_of (baseURL (fst (enforceRateLimit c now now')) @ endpoint)
              (fetch_init (fst (enforceRateLimit c now now'))
                 (case options_arg of None \<Rightarrow> Map.empty | Some opts \<Rightarrow> opts)))
         (snd (retryWithBackoff (fst (enforceRateLimit c now now'))
                (\<lambda>k. request_attempt (fst (enforceRateLimit c now now'))
                       (transport (baseURL (fst (enforceRateLimit c now now')) @ endpoint)
                          (fetch_init (fst (enforceRateLimit c now now'))
                             (case options_arg of None \<Rightarrow> Map.empty | Some opts \<Rightarrow> opts)) k))
                0 1))"
  by (simp add: request_def Let_def)

lemma acquire_first:
  "sent_headers (Acquire w # evs) = sent_headers evs"
  "fetches (Acquire w # evs) = fetches evs"
  "backoffs (Acquire w # evs) = backoffs evs"
  "acquisitions (Acquire w # evs) = Suc (acquisitions evs)"
  by (simp_all add: sent_headers_def fetches_def backoffs_def acquisitions_def)

lemma request_sent_headers:
  "sent_headers (trace (request c now now' transport endpoint options_arg)) =
     replicate (fetches (trace (request c now now' transport endpoint options_arg)))
       (fetch_init (fst (enforceRateLimit c now now'))
          (case options_arg of None \<Rightarrow> Map.empty | Some opts \<Rightarrow> opts) ''headers'')"
  unfolding request_trace acquire_first sent_headers_retry fetches_retry ..

lemma retry_invokes_first:
  "\<exists>evs. snd (retryWithBackoff c fn k attempt) = Invoke k # evs"
  by (subst retryWithBackoff.simps) (simp split: sum.splits prod.splits)

lemma retry_invocations_pos:
  "0 < invocations (snd (retryWithBackoff c fn k attempt))"
proof -
  from retry_invokes_first [of c fn k attempt]
  obtain evs where "snd (retryWithBackoff c fn k attempt) = Invoke k # evs" by blast
  then show ?thesis by (simp add: invocations_def)
qed

lemma request_fetches_pos:
  "0 < fetches (trace (request c now now' transport endpoint options_arg))"
  unfolding request_trace acquire_first fetches_retry by (rule retry_invocations_pos)

text \<open>
  C9. Every run of \<open>request\<close> makes at least one \<open>fetch\<close>. When \<open>options\<close> has a \<open>headers\<close>
  property, the trailing \<open>...options\<close> replaces the merged \<open>headers\<close> object: every \<open>fetch\<close>
  of the request is given exactly \<open>options.headers\<close>, without \<open>Content-Type\<close> and without
  the constructor's default headers. \<open>get\<close>, \<open>post\<close>, \<open>put\<close> and \<open>delete\<close> always pass a
  \<open>headers\<close> property (the argument, or \<open>{}\<close>), so every \<open>fetch\<close> they cause, and there is
  at least one, is given just that.
\<close>

theorem request_headers_are_option_headers:
  assumes "options ''headers'' = Some h"
  shows "fetch_init c options ''headers'' = Some h
         \<and> 0 < fetches (trace (request c now now' transport endpoint (Some options)))
         \<and> sent_headers (trace (request c now now' transport endpoint (Some options))) =
             replicate (fetches (trace (request c now now' transport endpoint (Some options))))
               (Some h)
         \<and> 0 < fetches (trace (get c now now' transport endpoint headers))
         \<and> sent_headers (trace (get c now now' transport endpoint headers)) =
             replicate (fetches (trace (get c now now' transport endpoint headers)))
               (Some (headers_or_empty headers))
         \<and> 0 < fetches (trace (post c now now' transport endpoint data headers))
         \<and> sent_headers (trace (post c now now' transport endpoint data headers)) =
             replicate (fetches (trace (post c now now' transport endpoint data headers)))
               (Some (headers_or_empty headers))
         \<and> 0 < fetches (trace (put c now now' transport endpoint data headers))
         \<and> sent_headers (trace (put c now now' transport endpoint data headers)) =
             replicate (fetches (trace (put c now now' transport endpoint data headers)))
               (Some (headers_or_empty headers))
         \<and> 0 < fetches (trace (delete c now now' transport endpoint headers))
         \<and> sent_headers (trace (delete c now now' transport endpoint headers)) =
             replicate (fetches (trace (delete c now now' transport endpoint headers)))
               (Some (headers_or_empty headers))"
proof -
  have req: "sent_headers (trace (request c now now' transport endpoint (Some opts))) =
             replicate (fetches (trace (request c now now' transport endpoint (Some opts)))) (Some v)"
    if "opts ''headers'' = Some v" for opts v and transport :: "string \<Rightarrow> js_object \<Rightarrow> nat \<Rightarrow> 'b fetch_outcome"
    unfolding request_sent_headers using that by (simp add: fetch_init_headers_given)
  show ?thesis
    unfolding get_def post_def put_def delete_def
    by (intro conjI fetch_init_headers_given assms req request_fetches_pos) simp_all
qed

theorem request_headers_are_option_headers_witness:
  "sent_headers (trace (request
     (new_client \<lparr>opt_baseURL = Some ''https://api.example.com'', opt_timeout = None,
               opt_maxRetries = None, opt_retryDelay = None, opt_rateLimit = None,
               opt_headers = Some [''Authorization'' \<mapsto> ''Bearer your-token'']\<rparr>)
     1000 1000
     (\<lambda>url init k. Resolved \<lparr>ok = True, resp_status = 200, statusText = ''OK'', json = Inr ()\<rparr>)
     ''/users'' (Some [''headers'' \<mapsto> JObject [''X-Trace'' \<mapsto> ''1'']])))
   = [Some (JObject [''X-Trace'' \<mapsto> ''1''])]
   \<and> sent_headers (trace (get
     (new_client \<lparr>opt_baseURL = Some ''https://api.example.com'', opt_timeout = None,
               opt_maxRetries = None, opt_retryDelay = None, opt_rateLimit = None,
               opt_headers = Some [''Authorization'' \<mapsto> ''Bearer your-token'']\<rparr>)
     1000 1000
     (\<lambda>url init k. Resolved \<lparr>ok = True, resp_status = 200, statusText = ''OK'', json = Inr ()\<rparr>)
     ''/users'' None))
   = [Some (JObject Map.empty)]"
proof -
  let ?c = "new_client \<lparr>opt_baseURL = Some ''https://api.example.com'', opt_timeout = None,
               opt_maxRetries = None, opt_retryDelay = None, opt_rateLimit = None,
               opt_headers = Some [''Authorization'' \<mapsto> ''Bearer your-token'']\<rparr>"
  let ?t = "\<lambda>(url :: string) (init :: js_object) (k :: nat).
              Resolved \<lparr>ok = True, resp_status = 200, statusText = ''OK'', json = Inr ()\<rparr>"
  let ?opts = "[''headers'' \<mapsto> JObject [''X-Trace'' \<mapsto> ''1'']]"
  have h: "?opts ''headers'' = Some (JObject [''X-Trace'' \<mapsto> ''1''])" by simp
  note th = request_headers_are_option_headers
                [where options = ?opts and h = "JObject [''X-Trace'' \<mapsto> ''1'']" and c = ?c
                 and now = 1000 and now' = 1000 and transport = ?t and endpoint = "''/users''"
                 and headers = None, OF h]
  have n1: "fetches (trace (request ?c 1000 1000 ?t ''/users'' (Some ?opts))) = 1"
    unfolding request_trace acquire_first fetches_retry
    by (simp add: retryWithBackoff.simps request_attempt_def request_try_def invocations_def)
  have n2: "fetches (trace (get ?c 1000 1000 ?t ''/users'' None)) = 1"
    unfolding get_def request_trace acquire_first fetches_retry
    by (simp add: retryWithBackoff.simps request_attempt_def request_try_def invocations_def)
  from th show ?thesis unfolding n1 n2 by (simp add: headers_or_empty_def)
qed

text \<open>
  C10. A run of \<open>request\<close> starts with its one call of \<open>enforceRateLimit\<close>; all that follows
  is the run of \<open>retryWithBackoff\<close> on the closure: one \<open>fetch\<close> per call of the closure and
  the backoff sleeps between them, with no further call of the rate limiter however many
  attempts are made. The client the run leaves is the one \<open>enforceRateLimit\<close> left, so
  \<open>lastRequestTime\<close> is not touched by the attempts.
\<close>

theorem request_acquires_once:
  fixes c :: client and now now' :: ms
    and transport :: "string \<Rightarrow> js_object \<Rightarrow> nat \<Rightarrow> 'a fetch_outcome"
    and endpoint :: string and options_arg :: "js_object option"
  defines "run \<equiv> request c now now' transport endpoint options_arg"
    and "c' \<equiv> fst (enforceRateLimit c now now')"
    and "init \<equiv> fetch_init (fst (enforceRateLimit c now now'))
                   (case options_arg of None \<Rightarrow> Map.empty | Some opts \<Rightarrow> opts)"
    and "retried \<equiv>
           retryWithBackoff (fst (enforceRateLimit c now now'))
             (\<lambda>k. request_attempt (fst (enforceRateLimit c now now'))
                    (transport (baseURL (fst (enforceRateLimit c now now')) @ endpoint)
                       (fetch_init (fst (enforceRateLimit c now now'))
                          (case options_arg of None \<Rightarrow> Map.empty | Some opts \<Rightarrow> opts)) k))
             0 1"
  shows "trace run =
           Acquire (snd (enforceRateLimit c now now'))
           # map (request_event_of (baseURL c' @ endpoint) init) (snd retried)
         \<and> acquisitions (trace run) = 1
         \<and> fetches (trace run) = invocations (snd retried)
         \<and> backoffs (trace run) = delays (snd retried)
         \<and> outcome run = fst retried
         \<and> client_after run = c'
         \<and> lastRequestTime (client_after run) = lastRequestTime (fst (enforceRateLimit c now now'))"
proof -
  have tr: "trace run =
           Acquire (snd (enforceRateLimit c now now'))
           # map (request_event_of (baseURL c' @ endpoint) init) (snd retried)"
    unfolding run_def c'_def init_def retried_def by (rule request_trace)
  have rest: "outcome run = fst retried" "client_after run = c'"
    unfolding run_def c'_def init_def retried_def by (simp_all add: request_def Let_def)
  show ?thesis
    unfolding tr acquire_first fetches_retry backoffs_retry acquisitions_retry
    using rest by (simp add: c'_def)
qed

theorem request_acquires_once_witness:
  "acquisitions (trace (request
     (new_client \<lparr>opt_baseURL = None, opt_timeout = None, opt_maxRetries = None,
               opt_retryDelay = None, opt_rateLimit = Some 2, opt_headers = None\<rparr>)
     1000 1000
     (\<lambda>url init k. Rejected \<lparr>name = ''TypeError'', message = ''fetch failed'', status = None\<rparr>
        :: unit fetch_outcome)
     ''/users'' None)) = 1
   \<and> fetches (trace (request
     (new_client \<lparr>opt_baseURL = None, opt_timeout = None, opt_maxRetries = None,
               opt_retryDelay = None, opt_rateLimit = Some 2, opt_headers = None\<rparr>)
     1000 1000
     (\<lambda>url init k. Rejected \<lparr>name = ''TypeError'', message = ''fetch failed'', status = None\<rparr>
        :: unit fetch_outcome)
     ''/users'' None)) = 3
   \<and> backoffs (trace (request
     (new_client \<lparr>opt_baseURL = None, opt_timeout = None, opt_maxRetries = None,
               opt_retryDelay = None, opt_rateLimit = Some 2, opt_headers = None\<rparr>)
     1000 1000
     (\<lambda>url init k. Rejected \<lparr>name = ''TypeError'', message = ''fetch failed'', status = None\<rparr>
        :: unit fetch_outcome)
     ''/users'' None)) = [1000, 2000]
   \<and> lastRequestTime (client_after (request
     (new_client \<lparr>opt_baseURL = None, opt_timeout = None, opt_maxRetries = None,
               opt_retryDelay = None, opt_rateLimit = Some 2, opt_headers = None\<rparr>)
     1000 1000
     (\<lambda>url init k. Rejected \<lparr>name = ''TypeError'', message = ''fetch failed'', status = None\<rparr>
        :: unit fetch_outcome)
     ''/users'' None)) = 1000"
  using request_acquires_once
    [of "new_client \<lparr>opt_baseURL = None, opt_timeout = None, opt_maxRetries = None,
               opt_retryDelay = None, opt_rateLimit = Some 2, opt_headers = None\<rparr>"
        1000 1000
        "\<lambda>url init k. Rejected \<lparr>name = ''TypeError'', message = ''fetch failed'', status = None\<rparr>
        :: unit fetch_outcome" "''/users''" None]
  by (auto simp add: new_client_def or_default_def enforceRateLimit_def enforceRateLimit_enter_def
      request_attempt_def request_try_def request_catch_def retryWithBackoff.simps
      is_client_error_def invocations_def delays_def)

section \<open>Properties of batchProcess\<close>

lemma promise_all_resolved:
  "promise_all (map (\<lambda>x. Inr (f x)) xs) = Inr (map f xs)"
  by (induction xs) simp_all

lemma length_slice:
  "length (slice xs b e) = min (e - b) (length xs - b)"
  by (simp add: slice_def)

lemma enumerate_slice:
  assumes "i < length items"
  shows "map (\<lambda>(index, item). g (i + index) item) (enumerate 0 (slice items i (i + c))) =
         map (\<lambda>j. g j (items ! j)) [i..<min (i + c) (length items)]"
proof (rule nth_equalityI)
  show "length (map (\<lambda>(index, item). g (i + index) item) (enumerate 0 (slice items i (i + c)))) =
        length (map (\<lambda>j. g j (items ! j)) [i..<min (i + c) (length items)])"
    using assms by (auto simp add: length_slice min_def)
next
  fix k
  assume "k < length (map (\<lambda>(index, item). g (i + index) item) (enumerate 0 (slice items i (i + c))))"
  then have kl: "k < length (slice items i (i + c))" by simp
  then have k: "k < c" "i + k < length items"
    using assms by (auto simp add: length_slice)
  have "map (\<lambda>(index, item). g (i + index) item) (enumerate 0 (slice items i (i + c))) ! k =
        g (i + k) (slice items i (i + c) ! k)"
    using kl by (simp add: nth_enumerate_eq)
  also have "slice items i (i + c) ! k = items ! (i + k)"
    using k by (simp add: slice_def)
  also have "g (i + k) (items ! (i + k)) =
             map (\<lambda>j. g j (items ! j)) [i..<min (i + c) (length items)] ! k"
  proof -
    have lt: "i + k < min (i + c) (length items)" using k by simp
    have nth: "[i..<min (i + c) (length items)] ! k = i + k" using lt by (rule nth_upt)
    have "k < length [i..<min (i + c) (length items)]" using k by (auto simp add: min_def)
    then have "map (\<lambda>j. g j (items ! j)) [i..<min (i + c) (length items)] ! k =
               g ([i..<min (i + c) (length items)] ! k) (items ! ([i..<min (i + c) (length items)] ! k))"
      by (rule nth_map)
    then show ?thesis unfolding nth by simp
  qed
  finally show "map (\<lambda>(index, item). g (i + index) item) (enumerate 0 (slice items i (i + c))) ! k =
             map (\<lambda>j. g j (items ! j)) [i..<min (i + c) (length items)] ! k" .
qed

text \<open>The items from \<open>js\<close>, settled and recorded one after the other.\<close>

lemma record_settled_logs:
  "windows (record_settled st s) = windows st" "events (record_settled st s) = events st"
  by (simp_all add: record_settled_def)

lemma record_settled_data:
  "results st = results st2 \<Longrightarrow> errors st = errors st2 \<Longrightarrow>
   results (record_settled st s) = results (record_settled st2 s)
   \<and> errors (record_settled st s) = errors (record_settled st2 s)"
  by (simp add: record_settled_def)

lemma fold_record_logs:
  "windows (fold (\<lambda>j st'. record_settled st' (f j)) js st) = windows st"
  "events (fold (\<lambda>j st'. record_settled st' (f j)) js st) = events st"
  by (induction js arbitrary: st) (simp_all add: record_settled_logs)

lemma fold_record_data:
  "results st = results st2 \<Longrightarrow> errors st = errors st2 \<Longrightarrow>
   results (fold (\<lambda>j st'. record_settled st' (f j)) js st) =
     results (fold (\<lambda>j st'. record_settled st' (f j)) js st2)
   \<and> errors (fold (\<lambda>j st'. record_settled st' (f j)) js st) =
     errors (fold (\<lambda>j st'. record_settled st' (f j)) js st2)"
proof (induction js arbitrary: st st2)
  case Nil
  then show ?case by simp
next
  case (Cons j js)
  from record_settled_data [OF Cons.prems, of "f j"] show ?case
    by (simp add: Cons.IH)
qed

lemma index_settled_record [simp]: "index (settled_record processor j x) = j"
  by (simp add: settled_record_def split: sum.splits)

lemma batch_window_resolved:
  assumes "i < length items"
  shows "batch_window processor i (slice items i (i + c)) st =
     Inr (fold (\<lambda>j st'. record_settled st' (settled_record processor j (items ! j)))
            [i..<min (i + c) (length items)]
            (st\<lparr>windows := windows st @ [slice items i (i + c)],
                events := events st @ map Start [i..<min (i + c) (length items)]
                                    @ map Settled [i..<min (i + c) (length items)]\<rparr>))"
proof -
  have promises: "map (\<lambda>(index, item). settle processor (i + index) item)
                    (enumerate 0 (slice items i (i + c))) =
      map (\<lambda>j. Inr (settled_record processor j (items ! j))) [i..<min (i + c) (length items)]"
    unfolding settle_def using assms by (rule enumerate_slice)
  have starts: "map (\<lambda>(index, item). Start (i + index)) (enumerate 0 (slice items i (i + c))) =
      map Start [i..<min (i + c) (length items)]"
    using enumerate_slice [OF assms, of "\<lambda>j item. Start j" c] by simp
  show ?thesis
    unfolding batch_window_def Let_def promises starts promise_all_resolved
    by (simp add: fold_map comp_def)
qed

lemma upt_window:
  assumes "i < n"
  shows "[i..<min (i + c) n] @ [i + c..<n] = [i..<n]"
proof (cases "i + c \<le> n")
  case True
  have "[i..<(i + c) + (n - (i + c))] = [i..<i + c] @ [i + c..<(i + c) + (n - (i + c))]"
    by (rule upt_add_eq_append) simp
  then show ?thesis using True by (simp add: min_def)
next
  case False
  then show ?thesis by (simp add: min_def)
qed

lemma batchProcess_loop_completes:
  assumes c: "0 < c"
  shows "\<exists>st'. batchProcess_loop items processor c i st = Some (Inr st')
     \<and> windows st' = windows st @ map (\<lambda>s. slice items s (s + c)) (window_starts (length items) c i)
     \<and> events st' = events st @ concat (map (\<lambda>s. map Start [s..<min (s + c) (length items)]
                                               @ map Settled [s..<min (s + c) (length items)])
                                      (window_starts (length items) c i))
     \<and> results st' = results (fold (\<lambda>j st'. record_settled st' (settled_record processor j (items ! j)))
                                [i..<length items] st)
     \<and> errors st' = errors (fold (\<lambda>j st'. record_settled st' (settled_record processor j (items ! j)))
                              [i..<length items] st)"
proof (induction "length items - i" arbitrary: i st rule: less_induct)
  case less
  let ?rec = "\<lambda>j st'. record_settled st' (settled_record processor j (items ! j))"
  show ?case
  proof (cases "i < length items")
    case False
    then have "batchProcess_loop items processor c i st = Some (Inr st)"
      by (subst batchProcess_loop.simps) simp
    moreover have "window_starts (length items) c i = []"
      using False by (subst window_starts.simps) simp
    ultimately show ?thesis using False by simp
  next
    case True
    define js where "js = [i..<min (i + c) (length items)]"
    define st0 where "st0 = st\<lparr>windows := windows st @ [slice items i (i + c)],
                              events := events st @ map Start js @ map Settled js\<rparr>"
    define st1 where "st1 = fold ?rec js st0"
    have window: "batch_window processor i (slice items i (i + c)) st = Inr st1"
      unfolding st1_def st0_def js_def using True by (rule batch_window_resolved)
    have unroll: "batchProcess_loop items processor c i st =
                  batchProcess_loop items processor c (i + c) st1"
      using True window by (subst batchProcess_loop.simps) simp
    have "length items - (i + c) < length items - i" using True c by simp
    from less [OF this, of st1] obtain st' where
      run: "batchProcess_loop items processor c (i + c) st1 = Some (Inr st')"
      and w: "windows st' = windows st1 @ map (\<lambda>s. slice items s (s + c))
                                            (window_starts (length items) c (i + c))"
      and e: "events st' = events st1 @ concat (map (\<lambda>s. map Start [s..<min (s + c) (length items)]
                                               @ map Settled [s..<min (s + c) (length items)])
                                      (window_starts (length items) c (i + c)))"
      and r: "results st' = results (fold ?rec [i + c..<length items] st1)"
      and er: "errors st' = errors (fold ?rec [i + c..<length items] st1)"
      by blast
    have starts: "window_starts (length items) c i = i # window_starts (length items) c (i + c)"
      using True c by (subst window_starts.simps) simp
    have logs: "windows st1 = windows st @ [slice items i (i + c)]"
               "events st1 = events st @ map Start js @ map Settled js"
      unfolding st1_def by (simp_all add: fold_record_logs st0_def)
    have "fold ?rec [i..<length items] st0 = fold ?rec (js @ [i + c..<length items]) st0"
      unfolding js_def upt_window [OF True] ..
    then have whole: "fold ?rec [i + c..<length items] st1 = fold ?rec [i..<length items] st0"
      by (simp add: st1_def)
    have data: "results (fold ?rec [i..<length items] st0) = results (fold ?rec [i..<length items] st)
              \<and> errors (fold ?rec [i..<length items] st0) = errors (fold ?rec [i..<length items] st)"
      by (rule fold_record_data) (simp_all add: st0_def)
    show ?thesis
      unfolding unroll run starts
      using w e r er logs data by (simp add: whole js_def)
  qed
qed

lemma array_get_array_set:
  "array_get (array_set xs i v) j = (if j = i then v else array_get xs j)"
  by (auto simp add: array_get_def array_set_def nth_append)

lemma length_array_set:
  "length (array_set xs i v) = max (length xs) (Suc i)"
  by (simp add: array_set_def)

lemma record_settled_record:
  "record_settled st (settled_record processor j x) =
     (case processor x of
        Inr r \<Rightarrow> st\<lparr>results := array_set (results st) j (Value r)\<rparr>
      | Inl e \<Rightarrow> if truthy e then st\<lparr>errors := errors st @ [(j, e)]\<rparr>
                else st\<lparr>results := array_set (results st) j Null\<rparr>)"
  by (simp add: record_settled_def settled_record_def split: sum.splits)

lemma recorded_prefix:
  fixes processor :: "'a \<Rightarrow> js_value + 'b" and items :: "'a list"
  defines "st n \<equiv> fold (\<lambda>j st'. record_settled st' (settled_record processor j (items ! j)))
                      [0..<n] (batch_init :: ('a, 'b) batch_state)"
  shows "errors (st n) =
           concat (map (\<lambda>i. case processor (items ! i) of
                               Inl e \<Rightarrow> if truthy e then [(i, e)] else []
                             | Inr r \<Rightarrow> []) [0..<n])
         \<and> (\<forall>j. array_get (results (st n)) j =
                (if j < n then (case processor (items ! j) of
                                  Inr r \<Rightarrow> Value r
                                | Inl e \<Rightarrow> if truthy e then Hole else Null)
                 else Hole))
         \<and> length (results (st n)) \<le> n"
proof (induction n)
  case 0
  show ?case by (simp add: st_def batch_init_def array_get_def)
next
  case (Suc n)
  have step: "st (Suc n) = record_settled (st n) (settled_record processor n (items ! n))"
    by (simp add: st_def)
  show ?case
  proof (cases "processor (items ! n)")
    case (Inl e)
    then show ?thesis
      using Suc unfolding step record_settled_record
      by (auto simp add: array_get_array_set length_array_set less_Suc_eq)
  next
    case (Inr r)
    then show ?thesis
      using Suc unfolding step record_settled_record
      by (auto simp add: array_get_array_set length_array_set less_Suc_eq)
  qed
qed

lemma recorded_errors_members:
  "(i, e) \<in> set (concat (map (\<lambda>i. case processor (items ! i) of
                               Inl e \<Rightarrow> if truthy e then [(i, e)] else []
                             | Inr r \<Rightarrow> []) [0..<n]))
   \<longleftrightarrow> i < n \<and> processor (items ! i) = Inl e \<and> truthy e"
  by (auto split: sum.splits if_splits)

lemma recorded_errors_sorted:
  "sorted_wrt (<) (map fst (concat (map (\<lambda>i. case processor (items ! i) of
                               Inl e \<Rightarrow> if truthy e then [(i, e)] else []
                             | Inr r \<Rightarrow> []) [0..<n])))"
proof (induction n)
  case 0
  show ?case by simp
next
  case (Suc n)
  have "\<forall>x \<in> set (concat (map (\<lambda>i. case processor (items ! i) of
                               Inl e \<Rightarrow> if truthy e then [(i, e)] else []
                             | Inr r \<Rightarrow> []) [0..<n])). fst x < n"
    by (auto split: sum.splits if_splits)
  with Suc show ?case
    by (auto simp add: sorted_wrt_append split: sum.splits)
qed

lemma batchProcess_run_completes:
  fixes processor :: "'a \<Rightarrow> js_value + 'b" and items :: "'a list"
  assumes "concurrency_arg \<noteq> Some 0"
  shows "\<exists>st. batchProcess_run items processor concurrency_arg = Some (Inr st)
     \<and> batchProcess items processor concurrency_arg =
         Some (Inr \<lparr>results = results st, errors = errors st\<rparr>)
     \<and> errors st =
           concat (map (\<lambda>i. case processor (items ! i) of
                               Inl e \<Rightarrow> if truthy e then [(i, e)] else []
                             | Inr r \<Rightarrow> []) [0..<length items])
     \<and> (\<forall>j. array_get (results st) j =
                (if j < length items then (case processor (items ! j) of
                                  Inr r \<Rightarrow> Value r
                                | Inl e \<Rightarrow> if truthy e then Hole else Null)
                 else Hole))
     \<and> length (results st) \<le> length items"
proof -
  define c where "c = (case concurrency_arg of None \<Rightarrow> 5 | Some n \<Rightarrow> n)"
  have c: "0 < c" using assms by (auto simp add: c_def split: option.splits)
  from batchProcess_loop_completes [OF c, of items processor 0 batch_init]
  obtain st where run: "batchProcess_loop items processor c 0 batch_init = Some (Inr st)"
    and r: "results st = results (fold (\<lambda>j st'. record_settled st' (settled_record processor j (items ! j)))
                                [0..<length items] (batch_init :: ('a, 'b) batch_state))"
    and e: "errors st = errors (fold (\<lambda>j st'. record_settled st' (settled_record processor j (items ! j)))
                              [0..<length items] (batch_init :: ('a, 'b) batch_state))"
    by blast
  have run': "batchProcess_run items processor concurrency_arg = Some (Inr st)"
    using run by (simp add: batchProcess_run_def c_def)
  then have ret: "batchProcess items processor concurrency_arg =
         Some (Inr \<lparr>results = results st, errors = errors st\<rparr>)"
    by (simp add: batchProcess_def)
  have data: "errors st =
           concat (map (\<lambda>i. case processor (items ! i) of
                               Inl e \<Rightarrow> if truthy e then [(i, e)] else []
                             | Inr r \<Rightarrow> []) [0..<length items])
     \<and> (\<forall>j. array_get (results st) j =
                (if j < length items then (case processor (items ! j) of
                                  Inr r \<Rightarrow> Value r
                                | Inl e \<Rightarrow> if truthy e then Hole else Null)
                 else Hole))
     \<and> length (results st) \<le> length items"
    unfolding r e by (rule recorded_prefix)
  from run' ret data show ?thesis by (intro exI [of _ st] conjI) simp_all
qed

text \<open>
  C3. The claim is that every item is recorded under its position in the input: a success
  at \<open>results[i]\<close>, a failure as \<open>{index: i, error}\<close> in \<open>errors\<close> with a gap at
  \<open>results[i]\<close>. The code does so for successes and for failures with a truthy error (see
  \<open>batchProcess_always_completes\<close> below), but an item whose promise rejects with a falsy
  value is recorded as a success. For the items A, B, C with B rejecting with \<open>undefined\<close>
  (as \<open>Promise.reject()\<close> or a \<open>setTimeout(reject, ms)\<close> timeout does), the \<open>catch\<close> block
  returns \<open>{index: 1, result: null, error: undefined}\<close>, the test \<open>if (error)\<close> fails, and
  the run returns \<open>results = [resultA, null, resultC]\<close> and \<open>errors = []\<close>.
\<close>

theorem batchProcess_falsy_rejection_recorded_as_result:
  "batchProcess [''A'', ''B'', ''C''] (rejecting ''B'' JUndefined ((@) ''result'')) None =
     Some (Inr \<lparr>results = [Value ''resultA'', Null, Value ''resultC''], errors = []\<rparr>)"
  by (simp add: batchProcess_def batchProcess_run_def batchProcess_loop.simps batch_window_def
      batch_init_def slice_def enumerate_eq_zip settle_def settled_record_def rejecting_def
      record_settled_def array_set_def upt_conv_Cons)

text \<open>
  With \<open>concurrency = 0\<close> and an item left, the loop takes an empty window and comes
  back to the same counter: it never returns.
\<close>

lemma batchProcess_loop_stuck_aux:
  assumes "batchProcess_loop items processor c i st = Some y"
  shows "\<not> (c = 0 \<and> i < length items)"
  using assms
proof (induction items processor c i st y rule: batchProcess_loop.raw_induct [rotated 1, consumes 1])
  case (1 loop items processor c i st y)
  show ?case
  proof
    assume stuck: "c = 0 \<and> i < length items"
    then have lt: "i < length items" and c: "c = 0" by simp_all
    from batch_window_resolved [OF lt, of processor 0 st]
    obtain st' where "batch_window processor i (slice items i (i + 0)) st = Inr st'" by blast
    with 1(2) stuck have "loop items processor 0 i st' = Some y" by simp
    from 1(1) [OF this] stuck show False by simp
  qed
qed

lemma batchProcess_loop_stuck:
  "i < length items \<Longrightarrow> batchProcess_loop items processor 0 i st = None"
  using batchProcess_loop_stuck_aux [of items processor 0 i st]
  by (cases "batchProcess_loop items processor 0 i st") auto

text \<open>
  What the code does guarantee. For every list of items, every processor and every
  concurrency that is a positive whole number (omitted, it is 5), \<open>batchProcess\<close> ends and
  resolves with \<open>{results, errors}\<close>; it never rejects, whatever the items' promises do.
  What is recorded for an item depends on that item's own outcome only: a value at its
  index of \<open>results\<close> when it resolved; an entry \<open>(index, error)\<close> in \<open>errors\<close> and a gap in
  \<open>results\<close> when it rejected with a truthy value. Every entry of \<open>errors\<close> is the
  rejection of the item at its index, and the entries are in index order.
\<close>

lemma batchProcess_always_completes:
  fixes processor :: "'a \<Rightarrow> js_value + 'b" and items :: "'a list"
  assumes "concurrency_arg \<noteq> Some 0"
  shows "\<exists>res. batchProcess items processor concurrency_arg = Some (Inr res)
     \<and> (\<forall>i<length items. \<forall>r. processor (items ! i) = Inr r \<longrightarrow>
            array_get (results res) i = Value r)
     \<and> (\<forall>i<length items. \<forall>e. processor (items ! i) = Inl e \<longrightarrow> truthy e \<longrightarrow>
            (i, e) \<in> set (errors res) \<and> array_get (results res) i = Hole)
     \<and> (\<forall>x \<in> set (errors res). fst x < length items \<and> processor (items ! fst x) = Inl (snd x))
     \<and> sorted_wrt (<) (map fst (errors res))"
proof -
  from batchProcess_run_completes [OF assms, of items processor]
  obtain st :: "('a, 'b) batch_state"
    where ret: "batchProcess items processor concurrency_arg =
                  Some (Inr \<lparr>results = results st, errors = errors st\<rparr>)"
    and e: "errors st =
           concat (map (\<lambda>i. case processor (items ! i) of
                               Inl e \<Rightarrow> if truthy e then [(i, e)] else []
                             | Inr r \<Rightarrow> []) [0..<length items])"
    and r: "\<And>j. array_get (results st) j =
                (if j < length items then (case processor (items ! j) of
                                  Inr r \<Rightarrow> Value r
                                | Inl e \<Rightarrow> if truthy e then Hole else Null)
                 else Hole)"
    by blast
  have mem: "\<And>i e. (i, e) \<in> set (errors st) \<longleftrightarrow>
               i < length items \<and> processor (items ! i) = Inl e \<and> truthy e"
    unfolding e by (rule recorded_errors_members)
  have "\<forall>x \<in> set (errors st). fst x < length items \<and> processor (items ! fst x) = Inl (snd x)"
  proof
    fix x assume "x \<in> set (errors st)"
    then have "(fst x, snd x) \<in> set (errors st)" by simp
    then show "fst x < length items \<and> processor (items ! fst x) = Inl (snd x)"
      unfolding mem by simp
  qed
  moreover have "sorted_wrt (<) (map fst (errors st))"
    unfolding e by (rule recorded_errors_sorted)
  ultimately show ?thesis
    unfolding ret by (intro exI [of _ "\<lparr>results = results st, errors = errors st\<rparr>"])
      (simp add: r mem)
qed

lemma batchProcess_always_completes_example:
  "\<exists>res. batchProcess [''A'', ''B'', ''C'']
            (rejecting ''B'' (JError (new_Error ''boom'')) ((@) ''result'')) (Some 2) = Some (Inr res)
     \<and> array_get (results res) 0 = Value ''resultA''
     \<and> array_get (results res) 1 = Hole
     \<and> array_get (results res) 2 = Value ''resultC''
     \<and> (1, JError (new_Error ''boom'')) \<in> set (errors res)"
proof -
  let ?p = "rejecting ''B'' (JError (new_Error ''boom'')) ((@) ''result'') :: string \<Rightarrow> js_value + string"
  let ?items = "[''A'', ''B'', ''C'']"
  have "Some (2 :: nat) \<noteq> Some 0" by simp
  from batchProcess_always_completes [OF this, of ?items ?p]
  obtain res where ret: "batchProcess ?items ?p (Some 2) = Some (Inr res)"
    and ok: "\<And>i r. i < length ?items \<Longrightarrow> ?p (?items ! i) = Inr r \<Longrightarrow>
                array_get (results res) i = Value r"
    and bad: "\<And>i e. i < length ?items \<Longrightarrow> ?p (?items ! i) = Inl e \<Longrightarrow> truthy e \<Longrightarrow>
                (i, e) \<in> set (errors res) \<and> array_get (results res) i = Hole"
    by blast
  have "array_get (results res) 0 = Value ''resultA''"
    by (rule ok) (simp_all add: rejecting_def)
  moreover have "array_get (results res) 2 = Value ''resultC''"
    by (rule ok) (simp_all add: rejecting_def)
  moreover have "(1, JError (new_Error ''boom'')) \<in> set (errors res) \<and> array_get (results res) 1 = Hole"
    by (rule bad) (simp_all add: rejecting_def)
  ultimately show ?thesis using ret by blast
qed

text \<open>
  C7. The claim is that \<open>batchProcess\<close> never raises because an item failed, that one
  item's failure does not affect its siblings, and that the run always completes,
  returning both the partial successes and the full error list. The run does resolve and
  does record each item on its own (\<open>batchProcess_always_completes\<close> above), but the error
  list it returns is not full: an item that rejects with a falsy value is left out of it
  and counted among the successes. This is the defect of C3. Here the item 20 rejects with
  \<open>null\<close>, and the run returns an empty error list and \<open>null\<close> as the result of item 20.
\<close>

theorem batchProcess_error_list_not_full:
  "batchProcess [10, 20 :: nat] (rejecting 20 JNull Suc) None =
     Some (Inr \<lparr>results = [Value 11, Null], errors = []\<rparr>)
   \<and> rejecting 20 JNull Suc (20 :: nat) = Inl JNull"
proof (intro conjI)
  show "batchProcess [10, 20 :: nat] (rejecting 20 JNull Suc) None =
     Some (Inr \<lparr>results = [Value 11, Null], errors = []\<rparr>)"
    by (simp add: batchProcess_def batchProcess_run_def batchProcess_loop.simps batch_window_def
      batch_init_def slice_def enumerate_eq_zip settle_def settled_record_def rejecting_def
      record_settled_def array_set_def upt_conv_Cons)
  show "rejecting 20 JNull Suc (20 :: nat) = Inl JNull"
    by (simp add: rejecting_def)
qed

lemma window_starts_step:
  "i < n \<Longrightarrow> 0 < c \<Longrightarrow> window_starts n c i = i # window_starts n c (i + c)"
  by (subst window_starts.simps) simp

lemma window_starts_done:
  "\<not> i < n \<Longrightarrow> window_starts n c i = []"
  by (subst window_starts.simps) simp

lemma window_starts_bounds:
  "0 < c \<Longrightarrow> s \<in> set (window_starts n c i) \<Longrightarrow> i \<le> s \<and> s < n"
proof (induction "n - i" arbitrary: i rule: less_induct)
  case less
  show ?case
  proof (cases "i < n")
    case False
    with less.prems show ?thesis by (simp add: window_starts_done)
  next
    case True
    have "n - (i + c) < n - i" using True less.prems(1) by simp
    from less.hyps [OF this less.prems(1)] less.prems True show ?thesis
      by (auto simp add: window_starts_step)
  qed
qed

lemma length_window_starts:
  "0 < c \<Longrightarrow> length (window_starts n c i) = (n - i + c - 1) div c"
proof (induction "n - i" arbitrary: i rule: less_induct)
  case less
  show ?case
  proof (cases "i < n")
    case False
    with less.prems show ?thesis by (simp add: window_starts_done)
  next
    case True
    have "n - (i + c) < n - i" using True less.prems by simp
    from less.hyps [OF this less.prems]
    have ih: "length (window_starts n c (i + c)) = (n - (i + c) + c - 1) div c" .
    have a: "n - i + c - 1 = (n - i - 1) + c" using True by simp
    have b: "(n - (i + c) + c - 1) div c = (n - i - 1) div c"
    proof (cases "i + c \<le> n")
      case le: True
      then have "n - (i + c) + c - 1 = n - i - 1" by simp
      then show ?thesis by simp
    next
      case gt: False
      then have "n - (i + c) + c - 1 < c" "n - i - 1 < c" using less.prems by simp_all
      then show ?thesis by simp
    qed
    have "Suc ((n - (i + c) + c - 1) div c) = (n - i + c - 1) div c"
      unfolding a b using less.prems by simp
    then show ?thesis using True less.prems ih by (simp add: window_starts_step)
  qed
qed

lemma concat_windows:
  "0 < c \<Longrightarrow>
   concat (map (\<lambda>s. slice items s (s + c)) (window_starts (length items) c i)) = drop i items"
proof (induction "length items - i" arbitrary: i rule: less_induct)
  case less
  show ?case
  proof (cases "i < length items")
    case False
    then show ?thesis by (simp add: window_starts_done)
  next
    case True
    have "length items - (i + c) < length items - i" using True less.prems by simp
    from less.hyps [OF this less.prems]
    have ih: "concat (map (\<lambda>s. slice items s (s + c)) (window_starts (length items) c (i + c))) =
          drop (i + c) items" .
    have "slice items i (i + c) @ drop (i + c) items =
          take c (drop i items) @ drop c (drop i items)"
      by (simp add: slice_def add.commute)
    also have "\<dots> = drop i items" by (rule append_take_drop_id)
    finally show ?thesis
      unfolding window_starts_step [OF True less.prems] using ih by simp
  qed
qed

lemma window_size:
  assumes "0 < c" and "s \<in> set (window_starts (length items) c i)"
  shows "0 < length (slice items s (s + c)) \<and> length (slice items s (s + c)) \<le> c"
  using window_starts_bounds [OF assms] assms(1) by (simp add: length_slice)

lemma full_windows:
  "0 < c \<Longrightarrow>
   \<forall>w \<in> set (butlast (map (\<lambda>s. slice items s (s + c)) (window_starts (length items) c i))).
     length w = c"
proof (induction "length items - i" arbitrary: i rule: less_induct)
  case less
  show ?case
  proof (cases "i < length items")
    case False
    then show ?thesis by (simp add: window_starts_done)
  next
    case True
    have "length items - (i + c) < length items - i" using True less.prems by simp
    note ih = less.hyps [OF this less.prems]
    show ?thesis
    proof (cases "i + c < length items")
      case False
      then have "window_starts (length items) c (i + c) = []" by (rule window_starts_done)
      then show ?thesis unfolding window_starts_step [OF True less.prems] by simp
    next
      case next_window: True
      then have "length (slice items i (i + c)) = c" by (simp add: length_slice)
      moreover have "window_starts (length items) c (i + c) \<noteq> []"
        unfolding window_starts_step [OF next_window less.prems] by simp
      ultimately show ?thesis
        unfolding window_starts_step [OF True less.prems] using ih by simp
    qed
  qed
qed

lemma in_flight_append: "in_flight (xs @ ys) = in_flight xs + in_flight ys"
  by (simp add: in_flight_def)

lemma in_flight_starts: "in_flight (map Start js) = int (length js)"
  by (induction js) (simp_all add: in_flight_def)

lemma in_flight_settled: "in_flight (map Settled js) = - int (length js)"
  by (induction js) (simp_all add: in_flight_def)

lemma in_flight_window_prefix:
  "in_flight (take k (map Start js @ map Settled js)) \<le> int (length js)"
  by (simp add: in_flight_append take_map in_flight_starts in_flight_settled)

lemma in_flight_windows:
  assumes "\<forall>js \<in> set jss. length js \<le> c"
  shows "in_flight (take k (concat (map (\<lambda>js. map Start js @ map Settled js) jss))) \<le> int c"
  using assms
proof (induction jss arbitrary: k)
  case Nil
  show ?case by (simp add: in_flight_def)
next
  case (Cons js jss)
  show ?case
  proof (cases "k \<le> length (map Start js @ map Settled js)")
    case True
    have "in_flight (take k (map Start js @ map Settled js)) \<le> int (length js)"
      by (rule in_flight_window_prefix)
    then show ?thesis using True Cons.prems by simp
  next
    case False
    have "in_flight (take (k - (length js + length js))
            (concat (map (\<lambda>js. map Start js @ map Settled js) jss))) \<le> int c"
      using Cons.prems by (intro Cons.IH) simp
    then show ?thesis
      using False by (simp add: in_flight_append in_flight_starts in_flight_settled)
  qed
qed

text \<open>
  When the call for an item starts, every item of an earlier window has settled: if \<open>s\<close>
  is the counter of a window, \<open>j'\<close> lies below it and \<open>j\<close> at or above it, then
  \<open>Settled j'\<close> comes before \<open>Start j\<close>.
\<close>

lemma earlier_windows_settled:
  assumes c: "0 < c"
  shows "concat (map (\<lambda>s. map Start [s..<min (s + c) n] @ map Settled [s..<min (s + c) n])
                   (window_starts n c i)) = pre @ Start j # suffix \<Longrightarrow>
         s \<in> set (window_starts n c i) \<Longrightarrow> i \<le> j' \<Longrightarrow> j' < s \<Longrightarrow> s \<le> j \<Longrightarrow>
         Settled j' \<in> set pre"
proof (induction "n - i" arbitrary: i pre rule: less_induct)
  case less
  show ?case
  proof (cases "i < n")
    case False
    with less.prems(2) show ?thesis by (simp add: window_starts_done)
  next
    case True
    let ?js = "[i..<min (i + c) n]"
    let ?rest = "concat (map (\<lambda>s. map Start [s..<min (s + c) n] @ map Settled [s..<min (s + c) n])
                   (window_starts n c (i + c)))"
    note step = window_starts_step [OF True c]
    have later: "s \<in> set (window_starts n c (i + c))"
      using less.prems(2-4) unfolding step by auto
    then have s: "i + c \<le> s" "s < n" using window_starts_bounds [OF c] by blast+
    have eq: "(map Start ?js @ map Settled ?js) @ ?rest = pre @ Start j # suffix"
      using less.prems(1) unfolding step by simp
    from append_eq_append_conv2 [THEN iffD1, OF this]
    consider us where "map Start ?js @ map Settled ?js = pre @ us" "us @ ?rest = Start j # suffix"
      | us where "(map Start ?js @ map Settled ?js) @ us = pre" "?rest = us @ Start j # suffix"
      by blast
    then show ?thesis
    proof cases
      case 1
      show ?thesis
      proof (cases us)
        case Nil
        with 1 have pre: "pre = map Start ?js @ map Settled ?js" and rest: "?rest = [] @ Start j # suffix"
          by simp_all
        show ?thesis
        proof (cases "i + c \<le> j'")
          case True
          have "n - (i + c) < n - i" using \<open>i < n\<close> c by simp
          from less.hyps [OF this rest later True less.prems(4,5)] show ?thesis by simp
        next
          case False
          then have "j' \<in> set ?js" using less.prems(3,4) s by simp
          then show ?thesis unfolding pre by simp
        qed
      next
        case (Cons u us')
        with 1(2) have "u = Start j" by simp
        with Cons have "Start j \<in> set (pre @ us)" by simp
        then have "Start j \<in> set (map Start ?js @ map Settled ?js)" unfolding 1(1) .
        then have "j < i + c" by auto
        with s less.prems(5) show ?thesis by simp
      qed
    next
      case 2
      show ?thesis
      proof (cases "i + c \<le> j'")
        case True
        have "n - (i + c) < n - i" using \<open>i < n\<close> c by simp
        from less.hyps [OF this 2(2) later True less.prems(4,5)] 2(1) show ?thesis by auto
      next
        case False
        then have "j' \<in> set ?js" using less.prems(3,4) s by simp
        then show ?thesis using 2(1) by auto
      qed
    qed
  qed
qed

text \<open>
  C4. For \<open>n\<close> items and a concurrency \<open>c > 0\<close> the run ends, and the windows it took are
  the slices \<open>items.slice(s, s + c)\<close> for \<open>s = 0, c, 2c, ...\<close> below \<open>n\<close>: put end to end they
  are the items, there are \<open>ceil(n / c)\<close> of them, each has between 1 and \<open>c\<close> items, and
  all but the last have exactly \<open>c\<close>. The calls of \<open>processor\<close> happen window by window:
  the starts of a window, then the settlements of the same window, then the next window;
  so when a call starts every item of an earlier window has settled, and at no point are
  more than \<open>c\<close> calls in flight. With the argument omitted the run is
  the run with concurrency 5.
\<close>

theorem batchProcess_windows:
  fixes processor :: "'a \<Rightarrow> js_value + 'b" and items :: "'a list"
  assumes "0 < c"
  shows "\<exists>st. batchProcess_run items processor (Some c) = Some (Inr st)
     \<and> windows st = map (\<lambda>s. slice items s (s + c)) (window_starts (length items) c 0)
     \<and> concat (windows st) = items
     \<and> length (windows st) = (length items + c - 1) div c
     \<and> (\<forall>w \<in> set (windows st). 0 < length w \<and> length w \<le> c)
     \<and> (\<forall>w \<in> set (butlast (windows st)). length w = c)
     \<and> events st = concat (map (\<lambda>s. map Start [s..<min (s + c) (length items)]
                                     @ map Settled [s..<min (s + c) (length items)])
                            (window_starts (length items) c 0))
     \<and> (\<forall>pre j suffix s j'. events st = pre @ Start j # suffix \<longrightarrow>
            s \<in> set (window_starts (length items) c 0) \<longrightarrow> j' < s \<longrightarrow> s \<le> j \<longrightarrow>
            Settled j' \<in> set pre)
     \<and> (\<forall>k. in_flight (take k (events st)) \<le> int c)
     \<and> batchProcess_run items processor None = batchProcess_run items processor (Some 5)"
proof -
  from batchProcess_loop_completes [OF assms, of items processor 0 batch_init]
  obtain st :: "('a, 'b) batch_state"
    where run: "batchProcess_loop items processor c 0 batch_init = Some (Inr st)"
    and w: "windows st = map (\<lambda>s. slice items s (s + c)) (window_starts (length items) c 0)"
    and e: "events st = concat (map (\<lambda>s. map Start [s..<min (s + c) (length items)]
                                     @ map Settled [s..<min (s + c) (length items)])
                            (window_starts (length items) c 0))"
    by (auto simp add: batch_init_def)
  have run': "batchProcess_run items processor (Some c) = Some (Inr st)"
    using run by (simp add: batchProcess_run_def)
  have whole: "concat (windows st) = items"
    unfolding w using concat_windows [OF assms, of items 0] by simp
  have count: "length (windows st) = (length items + c - 1) div c"
    unfolding w using length_window_starts [OF assms, of "length items" 0] by simp
  have sizes: "\<forall>w \<in> set (windows st). 0 < length w \<and> length w \<le> c"
    unfolding w using window_size [OF assms] by auto
  have full: "\<forall>w \<in> set (butlast (windows st)). length w = c"
    unfolding w using assms by (rule full_windows)
  have bound: "\<forall>k. in_flight (take k (events st)) \<le> int c"
  proof
    fix k
    have small: "\<forall>js \<in> set (map (\<lambda>s. [s..<min (s + c) (length items)])
                                (window_starts (length items) c 0)). length js \<le> c"
      by auto
    have "events st = concat (map (\<lambda>js. map Start js @ map Settled js)
                         (map (\<lambda>s. [s..<min (s + c) (length items)])
                            (window_starts (length items) c 0)))"
      unfolding e by (simp add: comp_def)
    then show "in_flight (take k (events st)) \<le> int c"
      using in_flight_windows [OF small, of k] by simp
  qed
  have seq: "\<forall>pre j suffix s j'. events st = pre @ Start j # suffix \<longrightarrow>
            s \<in> set (window_starts (length items) c 0) \<longrightarrow> j' < s \<longrightarrow> s \<le> j \<longrightarrow>
            Settled j' \<in> set pre"
    unfolding e using earlier_windows_settled [OF assms, of "length items" 0] by blast
  have dflt: "batchProcess_run items processor None = batchProcess_run items processor (Some 5)"
    by (simp add: batchProcess_run_def)
  from run' w whole count sizes full e seq bound dflt show ?thesis
    by (intro exI [of _ st] conjI)
qed

theorem batchProcess_windows_witness:
  "\<exists>st. batchProcess_run [1, 2, 3, 4, 5 :: nat] (rejecting 0 JNull ((*) 2)) (Some 2) = Some (Inr st)
     \<and> windows st = [[1, 2], [3, 4], [5]]
     \<and> length (windows st) = (5 + 2 - 1) div 2
     \<and> events st = [Start 0, Start 1, Settled 0, Settled 1,
                     Start 2, Start 3, Settled 2, Settled 3, Start 4, Settled 4]
     \<and> in_flight (take 2 (events st)) \<le> 2
     \<and> results st = [Value 2, Value 4, Value 6, Value 8, Value 10]
     \<and> errors st = []"
proof -
  let ?p = "rejecting 0 JNull ((*) 2) :: nat \<Rightarrow> js_value + nat"
  have "0 < (2 :: nat)" by simp
  from batchProcess_windows [OF this, of "[1, 2, 3, 4, 5]" ?p]
  obtain st where run: "batchProcess_run [1, 2, 3, 4, 5] ?p (Some 2) = Some (Inr st)"
    and count: "length (windows st) = (length [1, 2, 3, 4, 5 :: nat] + 2 - 1) div 2"
    and bound: "\<And>k. in_flight (take k (events st)) \<le> int 2"
    by blast
  have eval: "batchProcess_run [1, 2, 3, 4, 5] ?p (Some 2) =
      Some (Inr \<lparr>results = [Value 2, Value 4, Value 6, Value 8, Value 10], errors = [],
                 windows = [[1, 2], [3, 4], [5]],
                 events = [Start 0, Start 1, Settled 0, Settled 1,
                     Start 2, Start 3, Settled 2, Settled 3, Start 4, Settled 4]\<rparr>)"
    by (simp add: batchProcess_run_def batchProcess_loop.simps batch_window_def
      batch_init_def slice_def enumerate_eq_zip settle_def settled_record_def rejecting_def
      record_settled_def array_set_def upt_conv_Cons)
  from run eval have st: "st = \<lparr>results = [Value 2, Value 4, Value 6, Value 8, Value 10], errors = [],
                 windows = [[1, 2], [3, 4], [5]],
                 events = [Start 0, Start 1, Settled 0, Settled 1,
                     Start 2, Start 3, Settled 2, Settled 3, Start 4, Settled 4]\<rparr>"
    by simp
  show ?thesis
    using run count bound [of 2] unfolding st by (intro exI [of _ st]) (simp add: st)
qed

end
